theory Spec2Isabelle
  imports Main "HOL-Library.Sublist"
begin

text \<open>
  A chatbot that answers questions about one web site: \<^verbatim>\<open>SitemapParser\<close> searches an
  index of the site's URLs, \<^verbatim>\<open>WebScraper\<close> fetches pages through a cache, and
  \<^verbatim>\<open>RAGChatbot\<close> runs the conversation with a remote language model, which may ask
  for either of the two as a tool. The three classes are modelled first, as functions over
  an explicit state; the notions that the statements need follow, and then the proofs.
\<close>

section \<open>JavaScript values and strings\<close>

text \<open>
  The chatbot exchanges JSON with the remote model and with its own tools, and the code
  reads these values without checking their types. They are modelled as the values
  \<^verbatim>\<open>JSON.parse\<close> can produce, plus \<^verbatim>\<open>undefined\<close>. A string is a list
  of characters (code units below 256), a number is an integer; fractional numbers, NaN and
  infinities are outside the model. An object is an association list read with its first
  binding of a key.
\<close>

datatype json =
    JUndefined
  | JNull
  | JBool bool
  | JNum int
  | JStr string
  | JArr "json list"
  | JObj "(string \<times> json) list"

text \<open>Truthiness, as \<^verbatim>\<open>!x\<close>, \<^verbatim>\<open>x || y\<close> and \<^verbatim>\<open>if (x)\<close> test it.\<close>

fun truthy :: "json \<Rightarrow> bool" where
  "truthy JUndefined = False"
| "truthy JNull = False"
| "truthy (JBool b) = b"
| "truthy (JNum n) = (n \<noteq> 0)"
| "truthy (JStr s) = (s \<noteq> [])"
| "truthy (JArr xs) = True"
| "truthy (JObj kvs) = True"

text \<open>
  A template literal converts the value it prints to a string, and a comparison with a
  number or the bound of a \<^verbatim>\<open>slice\<close> converts it to a number; both go through the
  methods \<^verbatim>\<open>toString\<close> and \<^verbatim>\<open>valueOf\<close> of an object. The conversion raises a
  TypeError for an object that has a property \<^verbatim>\<open>toString\<close> of its own, which in a
  JSON value is never a function (the inherited \<^verbatim>\<open>valueOf\<close> returns the object
  itself), and for an array with such an element, since \<^verbatim>\<open>join\<close> converts the
  elements. Every other value converts.
\<close>

fun unprintable :: "json \<Rightarrow> bool" where
  "unprintable (JObj kvs) = (map_of kvs ''toString'' \<noteq> None)"
| "unprintable (JArr xs) = (\<exists>x \<in> set xs. unprintable x)"
| "unprintable v = False"

text \<open>
  \<^verbatim>\<open>String.prototype.toLowerCase\<close> on code units below 256: the upper-case
  letters are A to Z and U+00C0 to U+00DE without the multiplication sign U+00D7, each 32
  below its lower-case letter.
\<close>

definition toLowerCase_char :: "char \<Rightarrow> char" where
  "toLowerCase_char c =
     (let n = (of_char c :: nat)
      in if (65 \<le> n \<and> n \<le> 90) \<or> (192 \<le> n \<and> n \<le> 222 \<and> n \<noteq> 215)
         then char_of (n + 32) else c)"

definition toLowerCase :: "string \<Rightarrow> string" where
  "toLowerCase s = map toLowerCase_char s"

text \<open>\<^verbatim>\<open>s.includes(sub)\<close>: \<open>sub\<close> occurs in \<open>s\<close> as a contiguous run.\<close>

fun js_includes :: "string \<Rightarrow> string \<Rightarrow> bool" where
  "js_includes [] sub = (sub = [])"
| "js_includes (c # cs) sub = (prefix sub (c # cs) \<or> js_includes cs sub)"

text \<open>
  \<^verbatim>\<open>s.split(sep)\<close> for a separator of one character: every occurrence of the
  separator ends a piece, so the empty string gives one empty piece and two adjacent
  separators give an empty piece between them.
\<close>

fun js_split :: "char \<Rightarrow> string \<Rightarrow> string list" where
  "js_split sep [] = [[]]"
| "js_split sep (c # cs) =
     (if c = sep then [] # js_split sep cs
      else (case js_split sep cs of [] \<Rightarrow> [[c]] | t # ts \<Rightarrow> (c # t) # ts))"

text \<open>
  \<^verbatim>\<open>xs.slice(0, end)\<close> for an integer end \<open>e\<close>: a negative \<open>e\<close> counts
  from the end of the array, and the result never reaches outside the array.
\<close>

definition slice0 :: "'a list \<Rightarrow> int \<Rightarrow> 'a list" where
  "slice0 xs e =
     (if e < 0 then take (nat (int (length xs) + e)) xs else take (nat e) xs)"

text \<open>
  \<^verbatim>\<open>xs.sort(cmp)\<close>. The language requires the sort to be stable, and for a
  comparator that orders the elements consistently (here the difference of two integer
  scores) the result is determined: the sorted permutation that keeps elements comparing
  equal in their order. Insertion from the right computes it; an element is placed before
  the first element of the sorted rest that it does not come after, so before the later
  elements that compare equal to it.
\<close>

fun insort_cmp :: "('a \<Rightarrow> 'a \<Rightarrow> int) \<Rightarrow> 'a \<Rightarrow> 'a list \<Rightarrow> 'a list" where
  "insort_cmp cmp x [] = [x]"
| "insort_cmp cmp x (y # ys) =
     (if cmp x y \<le> 0 then x # y # ys else y # insort_cmp cmp x ys)"

definition sort_cmp :: "('a \<Rightarrow> 'a \<Rightarrow> int) \<Rightarrow> 'a list \<Rightarrow> 'a list" where
  "sort_cmp cmp xs = foldr (insort_cmp cmp) xs []"


section \<open>SitemapParser: the URL index and its search\<close>

text \<open>
  A record of the index, as \<^verbatim>\<open>parseSitemapContent\<close> builds it (its field
  \<^verbatim>\<open>keywords\<close> is \<open>keyword_text\<close> here), and the same record
  with the score that \<^verbatim>\<open>searchUrls\<close> adds (\<^verbatim>\<open>{ ...urlData, score }\<close>).
\<close>

record url_record =
  url :: string
  path :: string
  category :: string
  keyword_text :: string
  title :: string

record scored_url = url_record +
  score :: int

definition with_score :: "url_record \<Rightarrow> int \<Rightarrow> scored_url" where
  "with_score urlData s =
     \<lparr>url = url urlData, path = path urlData, category = category urlData,
      keyword_text = keyword_text urlData, title = title urlData, score = s\<rparr>"

text \<open>
  The body of the \<^verbatim>\<open>map\<close> callback of \<^verbatim>\<open>searchUrls\<close>: the score of one record
  for the lower-cased query and its words. \<^verbatim>\<open>forEach\<close> is the fold over the words.
\<close>

definition score_of :: "string \<Rightarrow> string list \<Rightarrow> url_record \<Rightarrow> int" where
  "score_of queryLower queryWords urlData =
     (let score0 = 0;
          score1 = (if js_includes (keyword_text urlData) queryLower then score0 + 100 else score0);
          score2 = fold (\<lambda>word s. if js_includes (keyword_text urlData) word then s + 10 else s)
                        queryWords score1;
          score3 = (if js_includes queryLower ''product'' \<or> js_includes queryLower ''pricing''
                       \<or> js_includes queryLower ''buy''
                    then (if category urlData = ''product'' then score2 + 20 else score2)
                    else score2);
          score4 = (if js_includes queryLower ''blog'' \<or> js_includes queryLower ''article''
                       \<or> js_includes queryLower ''how to''
                    then (if category urlData = ''blog'' then score3 + 20 else score3)
                    else score3)
      in score4)"

text \<open>The array \<^verbatim>\<open>scored\<close> of \<^verbatim>\<open>searchUrls\<close>: every record of the index with its score.\<close>

definition scored :: "url_record list \<Rightarrow> string \<Rightarrow> scored_url list" where
  "scored index query =
     (let queryLower = toLowerCase query;
          queryWords = filter (\<lambda>w. length w > 2) (js_split (CHR '' '') queryLower)
      in map (\<lambda>urlData. with_score urlData (score_of queryLower queryWords urlData)) index)"

definition searchUrls :: "url_record list \<Rightarrow> string \<Rightarrow> int \<Rightarrow> scored_url list" where
  "searchUrls index query limit =
     slice0 (sort_cmp (\<lambda>a b. score b - score a)
                      (filter (\<lambda>item. score item > 0) (scored index query)))
            limit"


section \<open>WebScraper: fetching pages through a cache\<close>

text \<open>
  What a page fetch stores and returns (its fields \<^verbatim>\<open>url\<close> and \<^verbatim>\<open>title\<close> are
  \<open>page_url\<close> and \<open>page_title\<close> here). The URL is whatever value the caller passed:
  the tool dispatcher hands over the elements of a JSON array as they are.
\<close>

record page_content =
  page_url :: json
  page_title :: string
  description :: string
  content :: string
  fetchedAt :: string

text \<open>
  The exceptions of the program. Each constructor is one \<^verbatim>\<open>throw\<close> of the code or
  one kind of exception of the runtime and of axios; the handlers use only the message of
  an exception, which the constructor and its arguments determine.
\<close>

datatype error =
    AxiosError string
  | RejectedStatus int json
  | ApiStatus int json
  | InvalidResponseFormat
  | UnknownTool json
  | FetchFailed json error
  | TypeError
  | SyntaxError

text \<open>
  \<open>AxiosError code\<close>: axios rejected without a response (time-out, connection failure),
  or cheerio raised; \<open>RejectedStatus\<close>: axios rejected a response because
  \<^verbatim>\<open>validateStatus\<close> returned false; \<open>ApiStatus\<close>: \<^verbatim>\<open>API returned status ...\<close>;
  \<open>InvalidResponseFormat\<close>: \<^verbatim>\<open>Invalid response format from API\<close>;
  \<open>UnknownTool name\<close>: \<^verbatim>\<open>Unknown tool: ${toolName}\<close>;
  \<open>FetchFailed url cause\<close>: \<^verbatim>\<open>Failed to fetch content from ${url}: ${error.message}\<close>.

  The document that cheerio makes of a response body is seen through the queries the code
  asks: the number of elements a selector matches and their text, the text of the first
  \<^verbatim>\<open>h1\<close>, and the \<^verbatim>\<open>content\<close> attribute of the description \<^verbatim>\<open>meta\<close> element,
  all after the unwanted elements are removed.
\<close>

record document =
  select_length :: "string \<Rightarrow> nat"
  select_text :: "string \<Rightarrow> string"
  h1_first_text :: string
  meta_description :: "string option"

datatype get_outcome =
    GetRejected string
  | GetOk document string

text \<open>
  \<open>GetOk doc now\<close>: the request succeeded, \<open>doc\<close> is the parsed body and \<open>now\<close> the
  time \<^verbatim>\<open>new Date().toISOString()\<close> gives when the result is built.

  An element of the result of \<^verbatim>\<open>fetchMultiplePages\<close>: a page, or the record
  \<^verbatim>\<open>{url, error: err.message}\<close> that the \<^verbatim>\<open>catch\<close> callback builds.
\<close>

datatype fetched =
    Page page_content
  | Failed json error

datatype tool_result =
    SearchResults "scored_url list"
  | FetchResults "fetched list"
  | ErrorPayload error

text \<open>
  The messages of a conversation. \<open>AssistantRaw m\<close> is the message object of the model's
  response, pushed as it came; \<open>AssistantMsg c\<close> is \<^verbatim>\<open>{role: 'assistant', content: c}\<close>
  as the history keeps it; \<open>ToolMsg id name r\<close> carries the result \<open>r\<close> whose
  \<^verbatim>\<open>JSON.stringify\<close> text is the content.
\<close>

datatype message =
    SystemMsg json
  | UserMsg json
  | AssistantRaw json
  | AssistantMsg json
  | ToolMsg json json tool_result

datatype post_outcome =
    NoResponse string
  | Response int json

datatype event =
    Post "message list"
  | Wait nat
  | Get json

text \<open>
  The state of the process and its environment. The environment is fixed during a run:
  \<open>net_post n\<close> is what the \<open>n\<close>-th POST to the model meets, \<open>net_get n u\<close> what the
  \<open>n\<close>-th GET meets when it asks for \<open>u\<close>; \<open>JSON_parse v\<close> is the result of
  \<^verbatim>\<open>JSON.parse(v)\<close> for a \<open>v\<close> that converts to a string, \<open>None\<close> when the text
  is not JSON, and \<open>ToNumber v\<close> the number that the runtime converts a string, or an
  array or an object that converts, to, \<open>None\<close> for NaN. These built-in
  functions are not code of the repository and are taken as they come.
  The state is the counters of requests made, the trace of requests and waits
  (\<open>Wait ms\<close> is a \<^verbatim>\<open>setTimeout\<close> of \<open>ms\<close> milliseconds), the index of the
  \<^verbatim>\<open>SitemapParser\<close>, the cache of the \<^verbatim>\<open>WebScraper\<close> and the history of the
  \<^verbatim>\<open>RAGChatbot\<close>. Of the console output only the exception is modelled that printing
  a value can raise.
\<close>

record world =
  net_post :: "nat \<Rightarrow> post_outcome"
  net_get :: "nat \<Rightarrow> json \<Rightarrow> get_outcome"
  JSON_parse :: "json \<Rightarrow> json option"
  ToNumber :: "json \<Rightarrow> int option"
  posts :: nat
  gets :: nat
  trace :: "event list"
  sitemap_urls :: "url_record list"
  cache :: "json \<rightharpoonup> page_content"
  conversationHistory :: "message list"

text \<open>
  The white space of \<^verbatim>\<open>\s\<close> and of \<^verbatim>\<open>trim\<close> among the code units below 256:
  tab, line feed, vertical tab, form feed, carriage return, space and no-break space.
\<close>

definition is_whitespace :: "char \<Rightarrow> bool" where
  "is_whitespace c = ((of_char c :: nat) \<in> {9, 10, 11, 12, 13, 32, 160})"

definition js_trim :: "string \<Rightarrow> string" where
  "js_trim s = rev (dropWhile is_whitespace (rev (dropWhile is_whitespace s)))"

text \<open>\<^verbatim>\<open>s.replace(/P+/g, r)\<close>: every maximal run of characters in \<open>P\<close> becomes \<open>r\<close>.\<close>

function replace_runs :: "(char \<Rightarrow> bool) \<Rightarrow> char \<Rightarrow> string \<Rightarrow> string" where
  "replace_runs P r [] = []"
| "replace_runs P r (c # cs) =
     (if P c then r # replace_runs P r (dropWhile P cs) else c # replace_runs P r cs)"
  by pat_completeness auto
termination
  by (relation "measure (\<lambda>(P, r, s). length s)") (auto simp: length_dropWhile_le less_Suc_eq_le)

definition mainSelectors :: "string list" where
  "mainSelectors =
     [''main'', ''article'', ''.entry-content'', ''.post-content'', ''.content'', ''#content'',
      ''.main-content'']"

text \<open>The loop over the selectors: the text of the first selector that matches an element.\<close>

fun main_content :: "document \<Rightarrow> string list \<Rightarrow> string" where
  "main_content doc [] = []"
| "main_content doc (selector # rest) =
     (if select_length doc selector > 0 then select_text doc selector
      else main_content doc rest)"

text \<open>Lines 36 to 81 of \<^verbatim>\<open>fetchPageContent\<close>: the result built from a document.\<close>

definition build_result :: "json \<Rightarrow> document \<Rightarrow> string \<Rightarrow> page_content" where
  "build_result u doc now =
     (let content0 = main_content doc mainSelectors;
          content1 = (if content0 = [] then select_text doc ''body'' else content0);
          content2 = js_trim (replace_runs (\<lambda>c. c = CHR 0x0A) (CHR 0x0A)
                                (replace_runs is_whitespace (CHR '' '') content1));
          title0 = (if select_text doc ''title'' \<noteq> [] then select_text doc ''title''
                    else if h1_first_text doc \<noteq> [] then h1_first_text doc else []);
          description0 = (case meta_description doc of None \<Rightarrow> [] | Some d \<Rightarrow> d)
      in \<lparr>page_url = u, page_title = js_trim title0, description = js_trim description0,
          content = take 3000 content2, fetchedAt = now\<rparr>)"

text \<open>
  \<^verbatim>\<open>this.cache\<close> is a \<^verbatim>\<open>Map\<close>: a string, a number, a boolean or null is found
  again by its value, an array or an object only as the same object, and every array or
  object that reaches \<^verbatim>\<open>fetchPageContent\<close> is a new one.
\<close>

definition cache_get :: "world \<Rightarrow> json \<Rightarrow> page_content option" where
  "cache_get w u = (case u of JArr xs \<Rightarrow> None | JObj kvs \<Rightarrow> None | _ \<Rightarrow> cache w u)"

text \<open>
  \<^verbatim>\<open>fetchPageContent\<close> is an \<^verbatim>\<open>async\<close> function with one \<^verbatim>\<open>await\<close>, of the
  request. A call runs to the request without interruption (\<open>fetch_begin\<close>: the cache is
  read, and on a miss the URL is printed and the GET is issued) and runs from the response
  to its end without interruption (\<open>fetch_end\<close>: the result is built and stored, or the
  failure is raised). A call awaited alone is the two in sequence.
  When the URL cannot be printed, line 23 raises inside the \<^verbatim>\<open>try\<close> before the
  request, and the \<^verbatim>\<open>catch\<close> raises again at line 88, where it prints the URL: the
  call makes no request and raises a TypeError (\<open>Unprinted\<close>).
\<close>

datatype pending =
    Cached page_content
  | Requested nat
  | Unprinted

definition fetch_begin :: "json \<Rightarrow> world \<Rightarrow> pending \<times> world" where
  "fetch_begin u w =
     (case cache_get w u of
        Some r \<Rightarrow> (Cached r, w)
      | None \<Rightarrow>
          (if unprintable u then (Unprinted, w)
           else (Requested (gets w), w\<lparr>gets := gets w + 1, trace := trace w @ [Get u]\<rparr>)))"

definition fetch_end :: "json \<Rightarrow> pending \<Rightarrow> world \<Rightarrow> (error + page_content) \<times> world" where
  "fetch_end u p w =
     (case p of
        Cached r \<Rightarrow> (Inr r, w)
      | Unprinted \<Rightarrow> (Inl TypeError, w)
      | Requested n \<Rightarrow>
          (case net_get w n u of
             GetRejected msg \<Rightarrow> (Inl (FetchFailed u (AxiosError msg)), w)
           | GetOk doc now \<Rightarrow>
               (let result = build_result u doc now
                in (Inr result, w\<lparr>cache := (cache w)(u \<mapsto> result)\<rparr>))))"

definition fetchPageContent :: "json \<Rightarrow> world \<Rightarrow> (error + page_content) \<times> world" where
  "fetchPageContent u w = (let (p, w1) = fetch_begin u w in fetch_end u p w1)"

text \<open>
  A batch of \<^verbatim>\<open>fetchMultiplePages\<close>: \<^verbatim>\<open>batch.map\<close> starts the calls one after the
  other, each running to its request before the next starts, so every call of the batch
  reads the cache as it was when the batch began. \<^verbatim>\<open>Promise.all\<close> then waits for all
  of them and keeps their results in the order of the batch; the responses are taken to
  arrive in the order of the requests. A call that fails gives its error record.
\<close>

fun begin_all :: "json list \<Rightarrow> world \<Rightarrow> pending list \<times> world" where
  "begin_all [] w = ([], w)"
| "begin_all (u # us) w =
     (let (p, w1) = fetch_begin u w; (ps, w2) = begin_all us w1 in (p # ps, w2))"

fun end_all :: "(json \<times> pending) list \<Rightarrow> world \<Rightarrow> fetched list \<times> world" where
  "end_all [] w = ([], w)"
| "end_all ((u, p) # rest) w =
     (let (r, w1) = fetch_end u p w;
          x = (case r of Inl err \<Rightarrow> Failed u err | Inr page \<Rightarrow> Page page);
          (xs, w2) = end_all rest w1
      in (x # xs, w2))"

definition fetch_batch :: "json list \<Rightarrow> world \<Rightarrow> fetched list \<times> world" where
  "fetch_batch batch w = (let (ps, w1) = begin_all batch w in end_all (zip batch ps) w1)"

text \<open>
  The loop of \<^verbatim>\<open>fetchMultiplePages\<close> from index \<open>i\<close>. With a batch size of 0 the index
  never advances and the loop does not end: the call never returns, which is \<open>None\<close>.
\<close>

function fetch_loop ::
  "nat \<Rightarrow> nat \<Rightarrow> json list \<Rightarrow> fetched list \<Rightarrow> world \<Rightarrow> (fetched list \<times> world) option" where
  "fetch_loop i maxConcurrent us results w =
     (if i < length us then
        (if maxConcurrent = 0 then None
         else (let batch = take maxConcurrent (drop i us);
                   (batchResults, w1) = fetch_batch batch w
               in fetch_loop (i + maxConcurrent) maxConcurrent us (results @ batchResults) w1))
      else Some (results, w))"
  by pat_completeness auto
termination
  by (relation "measure (\<lambda>(i, maxConcurrent, us, results, w). length us - i)") auto

declare fetch_loop.simps [simp del]

text \<open>A batch size below 1 behaves as 0 does: the loop does not end.\<close>

definition fetchMultiplePages ::
  "json list \<Rightarrow> int \<Rightarrow> world \<Rightarrow> (fetched list \<times> world) option" where
  "fetchMultiplePages us maxConcurrent w = fetch_loop 0 (nat maxConcurrent) us [] w"

definition clearCache :: "world \<Rightarrow> world" where
  "clearCache w = w\<lparr>cache := Map.empty\<rparr>"


section \<open>RAGChatbot: tool dispatch, the model call and the conversation loop\<close>

text \<open>
  Reading a property whose name is not an index: it raises on \<^verbatim>\<open>undefined\<close> and
  \<^verbatim>\<open>null\<close>, finds the binding of an object, knows the length of a string and of an
  array, and gives \<^verbatim>\<open>undefined\<close> otherwise. \<open>get_first x\<close> is \<^verbatim>\<open>x[0]\<close>.
\<close>

fun get_prop :: "json \<Rightarrow> string \<Rightarrow> error + json" where
  "get_prop JUndefined k = Inl TypeError"
| "get_prop JNull k = Inl TypeError"
| "get_prop (JObj kvs) k = Inr (case map_of kvs k of None \<Rightarrow> JUndefined | Some v \<Rightarrow> v)"
| "get_prop (JArr xs) k = Inr (if k = ''length'' then JNum (int (length xs)) else JUndefined)"
| "get_prop (JStr s) k = Inr (if k = ''length'' then JNum (int (length s)) else JUndefined)"
| "get_prop (JBool b) k = Inr JUndefined"
| "get_prop (JNum n) k = Inr JUndefined"

fun get_first :: "json \<Rightarrow> error + json" where
  "get_first JUndefined = Inl TypeError"
| "get_first JNull = Inl TypeError"
| "get_first (JObj kvs) = Inr (case map_of kvs ''0'' of None \<Rightarrow> JUndefined | Some v \<Rightarrow> v)"
| "get_first (JArr xs) = Inr (case xs of [] \<Rightarrow> JUndefined | x # rest \<Rightarrow> x)"
| "get_first (JStr s) = Inr (case s of [] \<Rightarrow> JUndefined | c # rest \<Rightarrow> JStr [c])"
| "get_first (JBool b) = Inr JUndefined"
| "get_first (JNum n) = Inr JUndefined"

text \<open>
  The number a value converts to, \<open>None\<close> for NaN, or the TypeError of a value that
  does not convert; \<^verbatim>\<open>x > 0\<close>; and the integer that \<^verbatim>\<open>slice\<close> makes of its end
  argument when that is not \<^verbatim>\<open>undefined\<close>.
\<close>

definition to_number :: "world \<Rightarrow> json \<Rightarrow> error + int option" where
  "to_number w v =
     (case v of
        JUndefined \<Rightarrow> Inr None
      | JNull \<Rightarrow> Inr (Some 0)
      | JBool b \<Rightarrow> Inr (Some (if b then 1 else 0))
      | JNum n \<Rightarrow> Inr (Some n)
      | _ \<Rightarrow> (if unprintable v then Inl TypeError else Inr (ToNumber w v)))"

definition greater_than_zero :: "world \<Rightarrow> json \<Rightarrow> error + bool" where
  "greater_than_zero w v =
     (case to_number w v of
        Inl e \<Rightarrow> Inl e
      | Inr None \<Rightarrow> Inr False
      | Inr (Some n) \<Rightarrow> Inr (n > 0))"

definition to_integer :: "world \<Rightarrow> json \<Rightarrow> error + int" where
  "to_integer w v =
     (case to_number w v of
        Inl e \<Rightarrow> Inl e
      | Inr None \<Rightarrow> Inr 0
      | Inr (Some n) \<Rightarrow> Inr n)"

text \<open>
  The \<^verbatim>\<open>try\<close> block of \<^verbatim>\<open>executeToolCall\<close>. \<^verbatim>\<open>searchUrls\<close> raises at once when
  the query has no \<^verbatim>\<open>toLowerCase\<close>, that is when it is not a string, and at its
  \<^verbatim>\<open>slice\<close> when the limit does not convert to a number. Of the values
  that \<^verbatim>\<open>args.urls\<close> can be, only arrays and strings have a \<^verbatim>\<open>slice\<close>; the slice of
  a string is a string, on which \<^verbatim>\<open>fetchMultiplePages\<close> raises at \<^verbatim>\<open>batch.map\<close>
  unless the string is empty and its loop is not entered. \<open>None\<close>: the call never returns.
\<close>

definition tool_body ::
  "json \<Rightarrow> json \<Rightarrow> world \<Rightarrow> ((error + tool_result) \<times> world) option" where
  "tool_body toolName args w =
     (if toolName = JStr ''search_website_urls'' then
        (case get_prop args ''query'' of
           Inl e \<Rightarrow> Some (Inl e, w)
         | Inr query \<Rightarrow>
             (case get_prop args ''limit'' of
                Inl e \<Rightarrow> Some (Inl e, w)
              | Inr l \<Rightarrow>
                  (let limit = (if truthy l then l else JNum 5)
                   in (case query of
                         JStr q \<Rightarrow>
                           (case to_integer w limit of
                              Inl e \<Rightarrow> Some (Inl e, w)
                            | Inr n \<Rightarrow>
                                Some (Inr (SearchResults (searchUrls (sitemap_urls w) q n)), w))
                       | _ \<Rightarrow> Some (Inl TypeError, w)))))
      else if toolName = JStr ''fetch_webpage_content'' then
        (case get_prop args ''urls'' of
           Inl e \<Rightarrow> Some (Inl e, w)
         | Inr us \<Rightarrow>
             (case us of
                JArr xs \<Rightarrow>
                  (let limitedUrls = take 3 xs
                   in (case fetchMultiplePages limitedUrls 3 w of
                         None \<Rightarrow> None
                       | Some (contents, w1) \<Rightarrow> Some (Inr (FetchResults contents), w1)))
              | JStr s \<Rightarrow>
                  (if take 3 s = [] then Some (Inr (FetchResults []), w)
                   else Some (Inl TypeError, w))
              | _ \<Rightarrow> Some (Inl TypeError, w)))
      else Some (Inl (UnknownTool toolName), w))"

text \<open>
  \<^verbatim>\<open>executeToolCall\<close>: line 69 prints the tool name before the \<^verbatim>\<open>try\<close>, so a name
  that cannot be printed raises out of the function. After that the \<^verbatim>\<open>catch\<close> turns
  an exception of the block into the payload \<^verbatim>\<open>{ error: error.message }\<close>; it prints
  the name again at line 98, which has been printed once by then. The result is \<open>Inl\<close>
  when the call raises.
\<close>

definition executeToolCall ::
  "json \<Rightarrow> json \<Rightarrow> world \<Rightarrow> ((error + tool_result) \<times> world) option" where
  "executeToolCall toolName args w =
     (if unprintable toolName then Some (Inl TypeError, w)
      else (case tool_body toolName args w of
              None \<Rightarrow> None
            | Some (Inl e, w1) \<Rightarrow> Some (Inr (ErrorPayload e), w1)
            | Some (Inr results, w1) \<Rightarrow> Some (Inr results, w1)))"

text \<open>
  \<^verbatim>\<open>axios.post\<close> with the \<^verbatim>\<open>validateStatus\<close> of the call: a response is accepted
  when its status is from 200 to 499, and rejected as an exception otherwise.
\<close>

definition axios_post :: "message list \<Rightarrow> world \<Rightarrow> (error + int \<times> json) \<times> world" where
  "axios_post messages w =
     (let w1 = w\<lparr>posts := posts w + 1, trace := trace w @ [Post messages]\<rparr>
      in (case net_post w (posts w) of
            NoResponse code \<Rightarrow> (Inl (AxiosError code), w1)
          | Response status body \<Rightarrow>
              (if 200 \<le> status \<and> status < 500 then (Inr (status, body), w1)
               else (Inl (RejectedStatus status body), w1))))"

text \<open>Lines 136 to 145: the checks on an accepted response, whose data is returned.\<close>

definition check_response :: "int \<Rightarrow> json \<Rightarrow> error + json" where
  "check_response status body =
     (if status \<noteq> 200 then Inl (ApiStatus status body)
      else if \<not> truthy body then Inl InvalidResponseFormat
      else (case get_prop body ''choices'' of
              Inl e \<Rightarrow> Inl e
            | Inr choices \<Rightarrow>
                (if \<not> truthy choices then Inl InvalidResponseFormat
                 else (case get_first choices of
                         Inl e \<Rightarrow> Inl e
                       | Inr choice \<Rightarrow>
                           (if \<not> truthy choice then Inl InvalidResponseFormat
                            else Inr body)))))"

text \<open>The \<^verbatim>\<open>try\<close> block of one attempt of \<^verbatim>\<open>callOpenRouterAPI\<close>.\<close>

definition attempt_call :: "message list \<Rightarrow> world \<Rightarrow> (error + json) \<times> world" where
  "attempt_call messages w =
     (case axios_post messages w of
        (Inl e, w1) \<Rightarrow> (Inl e, w1)
      | (Inr (status, body), w1) \<Rightarrow> (check_response status body, w1))"

definition waitTime :: "nat \<Rightarrow> nat" where
  "waitTime attempt = min (1000 * 2 ^ (attempt - 1)) 5000"

text \<open>
  The loop of \<^verbatim>\<open>callOpenRouterAPI\<close> from attempt \<open>attempt\<close>. A failed attempt that is
  the last raises its exception; any other waits and goes on. When the loop ends without
  an attempt, the function returns \<^verbatim>\<open>undefined\<close>.
\<close>

function callOpenRouterAPI_loop ::
  "nat \<Rightarrow> nat \<Rightarrow> message list \<Rightarrow> world \<Rightarrow> (error + json) \<times> world" where
  "callOpenRouterAPI_loop attempt retries messages w =
     (if attempt \<le> retries then
        (case attempt_call messages w of
           (Inr body, w1) \<Rightarrow> (Inr body, w1)
         | (Inl e, w1) \<Rightarrow>
             (if attempt = retries then (Inl e, w1)
              else callOpenRouterAPI_loop (attempt + 1) retries messages
                     (w1\<lparr>trace := trace w1 @ [Wait (waitTime attempt)]\<rparr>)))
      else (Inr JUndefined, w))"
  by pat_completeness auto
termination
  by (relation "measure (\<lambda>(attempt, retries, messages, w). Suc retries - attempt)") auto

declare callOpenRouterAPI_loop.simps [simp del]

definition callOpenRouterAPI ::
  "message list \<Rightarrow> nat \<Rightarrow> world \<Rightarrow> (error + json) \<times> world" where
  "callOpenRouterAPI messages retries w = callOpenRouterAPI_loop 1 retries messages w"

text \<open>
  The values that \<^verbatim>\<open>for (const toolCall of x)\<close> runs through, for an \<open>x\<close> that is
  truthy and has a length above 0: the elements of an array, the characters of a string;
  an object is not iterable.
\<close>

fun iterate :: "json \<Rightarrow> error + json list" where
  "iterate (JArr xs) = Inr xs"
| "iterate (JStr s) = Inr (map (\<lambda>c. JStr [c]) s)"
| "iterate v = Inl TypeError"

text \<open>
  The loop over the tool calls of \<^verbatim>\<open>chat\<close>, appending a tool message for each call.
  \<^verbatim>\<open>JSON.parse\<close> converts its argument to a string first. An exception leaves the
  loop with the state reached.
\<close>

fun run_tool_calls ::
  "json list \<Rightarrow> message list \<Rightarrow> world \<Rightarrow> ((error + message list) \<times> world) option" where
  "run_tool_calls [] messages w = Some (Inr messages, w)"
| "run_tool_calls (toolCall # rest) messages w =
     (case get_prop toolCall ''function'' of
        Inl e \<Rightarrow> Some (Inl e, w)
      | Inr f \<Rightarrow>
          (case get_prop f ''name'' of
             Inl e \<Rightarrow> Some (Inl e, w)
           | Inr toolName \<Rightarrow>
               (case get_prop f ''arguments'' of
                  Inl e \<Rightarrow> Some (Inl e, w)
                | Inr arguments \<Rightarrow>
                    (if unprintable arguments then Some (Inl TypeError, w)
                     else
                       (case JSON_parse w arguments of
                          None \<Rightarrow> Some (Inl SyntaxError, w)
                        | Some toolArgs \<Rightarrow>
                            (case executeToolCall toolName toolArgs w of
                               None \<Rightarrow> None
                             | Some (Inl e, w1) \<Rightarrow> Some (Inl e, w1)
                             | Some (Inr toolResult, w1) \<Rightarrow>
                                 (case get_prop toolCall ''id'' of
                                    Inl e \<Rightarrow> Some (Inl e, w1)
                                  | Inr tool_call_id \<Rightarrow>
                                      run_tool_calls rest
                                        (messages @ [ToolMsg tool_call_id toolName toolResult])
                                        w1)))))))"

definition errorMessage :: string where
  "errorMessage =
     ''I apologize, but I'' @ [CHR 0x27] @ ''m having trouble processing your request right now. Please try again in a moment.''"

definition maxIterationMessage :: string where
  "maxIterationMessage =
     ''I apologize, but I'' @ [CHR 0x27] @ ''m taking too long to process your request. Please try asking in a different way.''"

text \<open>\<^verbatim>\<open>this.conversationHistory.slice(-10)\<close> when the history is longer than 10.\<close>

definition trim_history :: "message list \<Rightarrow> message list" where
  "trim_history h = (if length h > 10 then drop (length h - 10) h else h)"

text \<open>
  One pass through the body of the \<^verbatim>\<open>while\<close> loop of \<^verbatim>\<open>chat\<close>, which ends at
  \<^verbatim>\<open>continue\<close> with the messages grown, or at a \<^verbatim>\<open>return\<close>: of the final answer
  after the history is updated, or of the fixed message of the \<^verbatim>\<open>catch\<close>.
  \<open>wants_tools\<close> is the test of line 214, whose comparison converts the length to a
  number; line 239 prints the final answer before the history is updated.
\<close>

definition wants_tools :: "world \<Rightarrow> json \<Rightarrow> error + bool" where
  "wants_tools w tool_calls =
     (if truthy tool_calls then
        (case get_prop tool_calls ''length'' of
           Inl e \<Rightarrow> Inl e
         | Inr n \<Rightarrow> greater_than_zero w n)
      else Inr False)"

datatype step =
    Continue "message list"
  | Return json

definition chat_try ::
  "message list \<Rightarrow> json \<Rightarrow> world \<Rightarrow> ((error + step) \<times> world) option" where
  "chat_try messages userMessage w =
     (case callOpenRouterAPI messages 3 w of
        (Inl e, w1) \<Rightarrow> Some (Inl e, w1)
      | (Inr responseData, w1) \<Rightarrow>
          (case get_prop responseData ''choices'' of
             Inl e \<Rightarrow> Some (Inl e, w1)
           | Inr choices \<Rightarrow>
               (case get_first choices of
                  Inl e \<Rightarrow> Some (Inl e, w1)
                | Inr choice \<Rightarrow>
                    (case get_prop choice ''message'' of
                       Inl e \<Rightarrow> Some (Inl e, w1)
                     | Inr assistantMessage \<Rightarrow>
                         (let messages1 = messages @ [AssistantRaw assistantMessage]
                          in (case get_prop assistantMessage ''tool_calls'' of
                                Inl e \<Rightarrow> Some (Inl e, w1)
                              | Inr tool_calls \<Rightarrow>
                                  (case wants_tools w1 tool_calls of
                                     Inl e \<Rightarrow> Some (Inl e, w1)
                                   | Inr True \<Rightarrow>
                                       (case iterate tool_calls of
                                          Inl e \<Rightarrow> Some (Inl e, w1)
                                        | Inr calls \<Rightarrow>
                                            (case run_tool_calls calls messages1 w1 of
                                               None \<Rightarrow> None
                                             | Some (Inl e, w2) \<Rightarrow> Some (Inl e, w2)
                                             | Some (Inr messages2, w2) \<Rightarrow>
                                                 Some (Inr (Continue messages2), w2)))
                                   | Inr False \<Rightarrow>
                                       (case get_prop assistantMessage ''content'' of
                                          Inl e \<Rightarrow> Some (Inl e, w1)
                                        | Inr finalResponse \<Rightarrow>
                                            (if unprintable finalResponse
                                             then Some (Inl TypeError, w1)
                                             else
                                               Some (Inr (Return finalResponse),
                                                 w1\<lparr>conversationHistory :=
                                                      trim_history
                                                        (conversationHistory w1 @
                                                         [UserMsg userMessage,
                                                          AssistantMsg finalResponse])\<rparr>))))))))))"

definition chat_iteration ::
  "message list \<Rightarrow> json \<Rightarrow> world \<Rightarrow> (step \<times> world) option" where
  "chat_iteration messages userMessage w =
     (case chat_try messages userMessage w of
        None \<Rightarrow> None
      | Some (Inl e, w1) \<Rightarrow> Some (Return (JStr errorMessage), w1)
      | Some (Inr s, w1) \<Rightarrow> Some (s, w1))"

definition maxIterations :: nat where
  "maxIterations = 10"

text \<open>
  The \<^verbatim>\<open>while\<close> loop of \<^verbatim>\<open>chat\<close>, entered with \<open>currentIteration\<close> passes made.
\<close>

function chat_loop ::
  "nat \<Rightarrow> message list \<Rightarrow> json \<Rightarrow> world \<Rightarrow> (json \<times> world) option" where
  "chat_loop currentIteration messages userMessage w =
     (if currentIteration < maxIterations then
        (case chat_iteration messages userMessage w of
           None \<Rightarrow> None
         | Some (Continue messages1, w1) \<Rightarrow>
             chat_loop (currentIteration + 1) messages1 userMessage w1
         | Some (Return answer, w1) \<Rightarrow> Some (answer, w1))
      else Some (JStr maxIterationMessage, w))"
  by pat_completeness auto
termination
  by (relation "measure (\<lambda>(currentIteration, messages, userMessage, w).
                  maxIterations - currentIteration)") auto

declare chat_loop.simps [simp del]

definition defaultSystemPrompt :: string where
  "defaultSystemPrompt =
     ''You are a helpful assistant for VSF Technology, a web hosting and domain services company. '' @ [CHR 0x0A] @
     ''Your job is to answer questions about our services, products, and help users find information on our website.'' @ [CHR 0x0A] @
     [CHR 0x0A] @
     ''When a user asks a question:'' @ [CHR 0x0A] @
     ''1. First, use the search_website_urls function to find relevant pages'' @ [CHR 0x0A] @
     ''2. Then, use the fetch_webpage_content function to get detailed information from those pages'' @ [CHR 0x0A] @
     ''3. Finally, provide a comprehensive answer based on the fetched content'' @ [CHR 0x0A] @
     [CHR 0x0A] @
     ''Be friendly, professional, and always provide accurate information based on the website content.''"

text \<open>The array \<^verbatim>\<open>messages\<close> that \<^verbatim>\<open>chat\<close> builds before its loop.\<close>

definition initial_messages :: "json \<Rightarrow> json \<Rightarrow> world \<Rightarrow> message list" where
  "initial_messages userMessage systemPrompt w =
     [SystemMsg (if truthy systemPrompt then systemPrompt else JStr defaultSystemPrompt)]
     @ conversationHistory w @ [UserMsg userMessage]"

text \<open>
  \<^verbatim>\<open>chat\<close>: line 176 prints the user message before the loop and outside every
  \<^verbatim>\<open>try\<close>, so a message that cannot be printed raises out of the function before
  anything else is done. The result is \<open>Inl\<close> when the call raises.
\<close>

definition chat :: "json \<Rightarrow> json \<Rightarrow> world \<Rightarrow> ((error + json) \<times> world) option" where
  "chat userMessage systemPrompt w =
     (if unprintable userMessage then Some (Inl TypeError, w)
      else (case chat_loop 0 (initial_messages userMessage systemPrompt w) userMessage w of
              None \<Rightarrow> None
            | Some (answer, w1) \<Rightarrow> Some (Inr answer, w1)))"

definition resetConversation :: "world \<Rightarrow> world" where
  "resetConversation w = w\<lparr>conversationHistory := []\<rparr>"

section \<open>Notions used in the statements\<close>

subsection \<open>The score as the specification words it\<close>

text \<open>
  The specification describes the score of a record as a sum of four contributions over
  the tokens of the lower-cased query. \<open>claimed_score tokens\<close> is that sum for a given way
  \<open>tokens\<close> of cutting the query into tokens. The specification's own way is
  \<open>ws_tokens\<close>: the maximal runs of characters that are not white space.
\<close>

fun ws_tokens :: "string \<Rightarrow> string list" where
  "ws_tokens [] = []"
| "ws_tokens (c # cs) =
     (if is_whitespace c then ws_tokens cs
      else (case cs of
              [] \<Rightarrow> [[c]]
            | d # ds \<Rightarrow>
                (if is_whitespace d then [c] # ws_tokens cs
                 else (case ws_tokens cs of [] \<Rightarrow> [[c]] | t # ts \<Rightarrow> (c # t) # ts))))"

definition claimed_score :: "(string \<Rightarrow> string list) \<Rightarrow> string \<Rightarrow> url_record \<Rightarrow> int" where
  "claimed_score tokens query r =
     (let q = toLowerCase query;
          kept = filter (\<lambda>t. length t > 2) (tokens q)
      in (if js_includes (keyword_text r) q then 100 else 0)
         + (\<Sum>t\<leftarrow>kept. if js_includes (keyword_text r) t then 10 else 0)
         + (if (js_includes q ''product'' \<or> js_includes q ''pricing'' \<or> js_includes q ''buy'')
               \<and> category r = ''product'' then 20 else 0)
         + (if (js_includes q ''blog'' \<or> js_includes q ''article'' \<or> js_includes q ''how to'')
               \<and> category r = ''blog'' then 20 else 0))"

text \<open>A record of the index and a query whose two words are separated by a tab.\<close>

definition ssl_record :: url_record where
  "ssl_record =
     \<lparr>url = ''https://www.vsf.technology/ssl-certificates/'', path = ''ssl-certificates/'',
      category = ''page'', keyword_text = ''ssl certificates'', title = ''Ssl Certificates''\<rparr>"

definition tab_query :: string where
  "tab_query = ''ssl'' @ [CHR 0x09] @ ''vps''"

subsection \<open>The outcome of one attempt of the model call\<close>

text \<open>
  What an attempt of \<^verbatim>\<open>callOpenRouterAPI\<close> makes of what its request meets: the data
  of a well-formed response, or the exception that ends the attempt.
\<close>

definition attempt_outcome :: "post_outcome \<Rightarrow> error + json" where
  "attempt_outcome out =
     (case out of
        NoResponse code \<Rightarrow> Inl (AxiosError code)
      | Response status body \<Rightarrow>
          (if 200 \<le> status \<and> status < 500 then check_response status body
           else Inl (RejectedStatus status body)))"

text \<open>
  The failures of a request that the specification lists and the code can tell from the
  response alone: no response (a time-out, a connection error), a status other than 200,
  and a body that is not an object with a \<^verbatim>\<open>choices\<close> whose first element exists.
\<close>

definition lacks_choice :: "json \<Rightarrow> bool" where
  "lacks_choice body =
     (case body of
        JObj kvs \<Rightarrow>
          (case map_of kvs ''choices'' of
             None \<Rightarrow> True
           | Some choices \<Rightarrow>
               (case get_first choices of Inl e \<Rightarrow> True | Inr choice \<Rightarrow> \<not> truthy choice))
      | _ \<Rightarrow> True)"

fun recognised_failure :: "post_outcome \<Rightarrow> bool" where
  "recognised_failure (NoResponse code) = True"
| "recognised_failure (Response status body) = (status \<noteq> 200 \<or> lacks_choice body)"

text \<open>A process just started, in an environment where every request times out.\<close>

definition quiet_world :: world where
  "quiet_world =
     \<lparr>net_post = (\<lambda>n. NoResponse ''ECONNABORTED''),
      net_get = (\<lambda>n u. GetRejected ''timeout of 10000ms exceeded''),
      JSON_parse = (\<lambda>v. None),
      ToNumber = (\<lambda>v. None),
      posts = 0, gets = 0, trace = [],
      sitemap_urls = [],
      cache = Map.empty,
      conversationHistory = []\<rparr>"

subsection \<open>Results, calls and what a call leaves in place\<close>

text \<open>The URL that an element of the result of \<^verbatim>\<open>fetchMultiplePages\<close> carries.\<close>

fun result_url :: "fetched \<Rightarrow> json" where
  "result_url (Page p) = page_url p"
| "result_url (Failed u e) = u"

text \<open>
  Every entry of the cache is stored under the URL it carries. The cache of a new
  \<^verbatim>\<open>WebScraper\<close> is empty, and every write stores a result under its own URL.
\<close>

definition cache_wf :: "world \<Rightarrow> bool" where
  "cache_wf w = (\<forall>u p. cache w u = Some p \<longrightarrow> page_url p = u)"

text \<open>
  The calls that the running program makes on its three objects, one after the other:
  a page fetch, a batch of fetches, a chat turn, a reset of the conversation.
  \<open>run_calls\<close> gives the state after them, \<open>None\<close> when one of them never returns.
\<close>

datatype call =
    FetchOne json
  | FetchMany "json list" int
  | Chat json json
  | ResetConversation

fun run_calls :: "call list \<Rightarrow> world \<Rightarrow> world option" where
  "run_calls [] w = Some w"
| "run_calls (FetchOne u # calls) w = run_calls calls (snd (fetchPageContent u w))"
| "run_calls (FetchMany us maxConcurrent # calls) w =
     (case fetchMultiplePages us maxConcurrent w of
        None \<Rightarrow> None
      | Some (results, w1) \<Rightarrow> run_calls calls w1)"
| "run_calls (Chat userMessage systemPrompt # calls) w =
     (case chat userMessage systemPrompt w of
        None \<Rightarrow> None
      | Some (answer, w1) \<Rightarrow> run_calls calls w1)"
| "run_calls (ResetConversation # calls) w = run_calls calls (resetConversation w)"

text \<open>
  \<open>advances w w'\<close>: from \<open>w\<close> to \<open>w'\<close> the environment and the index are the same,
  every page that the cache gave in \<open>w\<close> it gives in \<open>w'\<close>, and every entry of the cache
  of \<open>w'\<close> was there in \<open>w\<close> or is stored under its own URL. \<open>quietly\<close> adds that the
  history is the same.
\<close>

definition advances :: "world \<Rightarrow> world \<Rightarrow> bool" where
  "advances w w' \<longleftrightarrow>
     net_post w' = net_post w \<and> net_get w' = net_get w \<and> JSON_parse w' = JSON_parse w
     \<and> ToNumber w' = ToNumber w \<and> sitemap_urls w' = sitemap_urls w
     \<and> (\<forall>u r. cache_get w u = Some r \<longrightarrow> cache_get w' u = Some r)
     \<and> (\<forall>u p. cache w' u = Some p \<longrightarrow> cache w u = Some p \<or> page_url p = u)"

definition quietly :: "world \<Rightarrow> world \<Rightarrow> bool" where
  "quietly w w' \<longleftrightarrow> advances w w' \<and> conversationHistory w' = conversationHistory w"

text \<open>
  What the requests numbered from \<open>lo\<close> up to \<open>hi\<close> (not included) have to say about a
  URL \<open>u\<close>: \<open>fetched_by\<close>, one of them asked for \<open>u\<close>, succeeded, and \<open>p\<close> is the
  page built from its response; \<open>failed_by\<close>, one of them asked for \<open>u\<close>, failed, and
  \<open>e\<close> is the exception that \<^verbatim>\<open>fetchPageContent\<close> raises for this failure.
\<close>

definition fetched_by :: "world \<Rightarrow> nat \<Rightarrow> nat \<Rightarrow> json \<Rightarrow> page_content \<Rightarrow> bool" where
  "fetched_by w lo hi u p =
     (\<exists>n \<in> {lo..<hi}.
        case net_get w n u of
          GetOk doc now \<Rightarrow> p = build_result u doc now
        | GetRejected msg \<Rightarrow> False)"

definition failed_by :: "world \<Rightarrow> nat \<Rightarrow> nat \<Rightarrow> json \<Rightarrow> error \<Rightarrow> bool" where
  "failed_by w lo hi u e =
     (\<exists>n \<in> {lo..<hi}.
        case net_get w n u of
          GetOk doc now \<Rightarrow> False
        | GetRejected msg \<Rightarrow> e = FetchFailed u (AxiosError msg))"

text \<open>
  \<open>outcome_of w lo hi u x\<close>: the element \<open>x\<close> of a result is the outcome of fetching
  \<open>u\<close> for a call that starts in \<open>w\<close> and makes the requests from \<open>lo\<close> up to \<open>hi\<close>.
  It is a page only if the cache gave that page for \<open>u\<close> in \<open>w\<close> or a request for \<open>u\<close>
  fetched it, and an error record only if it carries \<open>u\<close> and the failure of a request for
  \<open>u\<close>, or the TypeError of a URL that cannot be printed.
\<close>

definition outcome_of :: "world \<Rightarrow> nat \<Rightarrow> nat \<Rightarrow> json \<Rightarrow> fetched \<Rightarrow> bool" where
  "outcome_of w lo hi u x =
     (case x of
        Page p \<Rightarrow> cache_get w u = Some p \<or> fetched_by w lo hi u p
      | Failed v e \<Rightarrow>
          v = u \<and> (if unprintable u then e = TypeError else failed_by w lo hi u e))"

text \<open>
  \<open>scrapes w w'\<close>: from \<open>w\<close> to \<open>w'\<close> only the scraper has worked. The environment,
  the index, the history and the number of requests to the model are the same, every
  page that the cache gave in \<open>w\<close> it gives in \<open>w'\<close>, and every entry of the cache of
  \<open>w'\<close> was there in \<open>w\<close> or was fetched in between by a request for its URL.
\<close>

definition scrapes :: "world \<Rightarrow> world \<Rightarrow> bool" where
  "scrapes w w' \<longleftrightarrow>
     net_post w' = net_post w \<and> net_get w' = net_get w \<and> JSON_parse w' = JSON_parse w
     \<and> ToNumber w' = ToNumber w \<and> sitemap_urls w' = sitemap_urls w
     \<and> conversationHistory w' = conversationHistory w \<and> posts w' = posts w
     \<and> gets w \<le> gets w'
     \<and> (\<forall>u r. cache_get w u = Some r \<longrightarrow> cache_get w' u = Some r)
     \<and> (\<forall>u p. cache w' u = Some p \<longrightarrow>
                 cache w u = Some p \<or> fetched_by w (gets w) (gets w') u p)"

text \<open>
  A pending fetch of \<open>u\<close>, started in the state \<open>w\<close> by a batch whose requests are
  those from \<open>lo\<close> up to \<open>hi\<close>, holds what the cache gave in \<open>w\<close>, or the number of its
  request.
\<close>

definition pending_ok :: "world \<Rightarrow> nat \<Rightarrow> nat \<Rightarrow> json \<Rightarrow> pending \<Rightarrow> bool" where
  "pending_ok w lo hi u p =
     (case p of
        Cached r \<Rightarrow> cache_get w u = Some r
      | Requested n \<Rightarrow> cache_get w u = None \<and> \<not> unprintable u \<and> lo \<le> n \<and> n < hi
      | Unprinted \<Rightarrow> cache_get w u = None \<and> unprintable u)"

subsection \<open>How a chat turn runs\<close>

text \<open>
  The tool calls that a response of the model carries, when \<^verbatim>\<open>choices[0].message.tool_calls\<close>
  is an array; and a tool call that \<^verbatim>\<open>chat\<close> can dispatch: it has a
  \<^verbatim>\<open>function\<close> whose \<^verbatim>\<open>name\<close> can be printed and whose \<^verbatim>\<open>arguments\<close>
  parse.
\<close>

definition response_tool_calls :: "json \<Rightarrow> json list option" where
  "response_tool_calls responseData =
     (case get_prop responseData ''choices'' of
        Inl e \<Rightarrow> None
      | Inr choices \<Rightarrow>
          (case get_first choices of
             Inl e \<Rightarrow> None
           | Inr choice \<Rightarrow>
               (case get_prop choice ''message'' of
                  Inl e \<Rightarrow> None
                | Inr assistantMessage \<Rightarrow>
                    (case get_prop assistantMessage ''tool_calls'' of
                       Inr (JArr calls) \<Rightarrow> Some calls
                     | _ \<Rightarrow> None))))"

definition well_formed_call :: "world \<Rightarrow> json \<Rightarrow> bool" where
  "well_formed_call w toolCall =
     (case get_prop toolCall ''function'' of
        Inl e \<Rightarrow> False
      | Inr f \<Rightarrow>
          (case get_prop f ''name'' of
             Inl e \<Rightarrow> False
           | Inr toolName \<Rightarrow>
               \<not> unprintable toolName
               \<and> (case get_prop f ''arguments'' of
                      Inl e \<Rightarrow> False
                    | Inr arguments \<Rightarrow>
                        \<not> unprintable arguments \<and> JSON_parse w arguments \<noteq> None)))"


fun model_fails_after :: "nat \<Rightarrow> message list \<Rightarrow> json \<Rightarrow> world \<Rightarrow> bool" where
  "model_fails_after 0 messages userMessage w = isl (fst (callOpenRouterAPI messages 3 w))"
| "model_fails_after (Suc n) messages userMessage w =
     (case chat_iteration messages userMessage w of
        Some (Continue messages1, w1) \<Rightarrow> model_fails_after n messages1 userMessage w1
      | _ \<Rightarrow> False)"

subsection \<open>Example environments\<close>

text \<open>
  A response of status 200 whose \<^verbatim>\<open>choices[0]\<close> is an object without a
  \<^verbatim>\<open>message\<close>, and a process just started for which the model answers so.
\<close>

definition shapeless_data :: json where
  "shapeless_data = JObj [(''choices'', JArr [JObj []])]"

definition shapeless_world :: world where
  "shapeless_world = quiet_world\<lparr>net_post := (\<lambda>n. Response 200 shapeless_data)\<rparr>"

text \<open>The same with a \<^verbatim>\<open>message\<close> that has neither content nor tool calls.\<close>

definition contentless_data :: json where
  "contentless_data =
     JObj [(''choices'', JArr [JObj [(''message'', JObj [(''role'', JStr ''assistant'')])]])]"

definition contentless_world :: world where
  "contentless_world = quiet_world\<lparr>net_post := (\<lambda>n. Response 200 contentless_data)\<rparr>"

text \<open>
  A response that asks for one call of the search tool with the arguments \<^verbatim>\<open>{}\<close>,
  and a process with an index of one record and a history of one exchange, for which the
  model answers so every time; \<open>failing_world\<close> is the same process when the model
  answers so once and every later request times out.
\<close>

definition tool_request :: json where
  "tool_request =
     JObj [(''choices'',
       JArr [JObj [(''message'',
         JObj [(''role'', JStr ''assistant''),
               (''tool_calls'',
                JArr [JObj [(''id'', JStr ''call_1''),
                            (''function'',
                             JObj [(''name'', JStr ''search_website_urls''),
                                   (''arguments'', JStr ''{}'')])]])])]])]"

definition tools_world :: world where
  "tools_world =
     quiet_world
       \<lparr>net_post := (\<lambda>n. Response 200 tool_request),
        JSON_parse := (\<lambda>v. if v = JStr ''{}'' then Some (JObj []) else None),
        sitemap_urls := [ssl_record],
        conversationHistory :=
          [UserMsg (JStr ''hello''), AssistantMsg (JStr ''Hello, how can I help?'')]\<rparr>"

definition failing_world :: world where
  "failing_world =
     tools_world
       \<lparr>net_post := (\<lambda>n. if n = 0 then Response 200 tool_request
                          else NoResponse ''ECONNABORTED'')\<rparr>"

text \<open>
  A process just started for which the first request to the model times out and every
  later one gets the response without a \<^verbatim>\<open>message\<close>.
\<close>

definition flaky_world :: world where
  "flaky_world =
     quiet_world
       \<lparr>net_post := (\<lambda>n. if n = 0 then NoResponse ''ECONNABORTED''
                          else Response 200 shapeless_data)\<rparr>"

text \<open>
  A process just started for which the requests to the model fail in three ways: a
  time-out, a status 429 and a body without \<^verbatim>\<open>choices\<close>.
\<close>

definition refusing_world :: world where
  "refusing_world =
     quiet_world
       \<lparr>net_post := (\<lambda>n. if n = 0 then NoResponse ''ECONNABORTED''
                          else if n = 1 then Response 429 (JObj [(''error'', JStr ''rate limit'')])
                          else Response 200 (JObj [(''id'', JStr ''gen-1'')]))\<rparr>"

text \<open>A value that cannot be printed, as \<^verbatim>\<open>JSON.parse\<close> makes it of \<^verbatim>\<open>{"toString": 1}\<close>.\<close>

definition unprintable_value :: json where
  "unprintable_value = JObj [(''toString'', JNum 1)]"

text \<open>
  A page, and a process just started for which every GET gives this page; the first
  response is handled a quarter of a second before the others.
\<close>

definition home_url :: json where
  "home_url = JStr ''https://www.vsf.technology/''"

definition home_doc :: document where
  "home_doc =
     \<lparr>select_length = (\<lambda>selector. 0),
      select_text = (\<lambda>selector. if selector = ''body'' then ''Hosting'' else []),
      h1_first_text = [],
      meta_description = None\<rparr>"

definition home_page :: "string \<Rightarrow> page_content" where
  "home_page now =
     \<lparr>page_url = home_url, page_title = [], description = [], content = ''Hosting'',
      fetchedAt = now\<rparr>"

definition serving_world :: world where
  "serving_world =
     quiet_world
       \<lparr>net_get := (\<lambda>n u. GetOk home_doc
                     (if n = 0 then ''2025-01-01T00:00:00.000Z''
                      else ''2025-01-01T00:00:00.250Z''))\<rparr>"

text \<open>
  The same process when the site has no page \<^verbatim>\<open>/missing\<close>: every GET of that URL
  fails with the status 404.
\<close>

definition missing_url :: json where
  "missing_url = JStr ''https://www.vsf.technology/missing''"

definition patchy_world :: world where
  "patchy_world =
     serving_world
       \<lparr>net_get := (\<lambda>n u. if u = missing_url
                           then GetRejected ''Request failed with status code 404''
                           else net_get serving_world n u)\<rparr>"

text \<open>
  A response that asks for a tool whose name is the object \<^verbatim>\<open>{"toString": 1}\<close>, and
  a process just started for which the model answers so.
\<close>

definition odd_tool_request :: json where
  "odd_tool_request =
     JObj [(''choices'',
       JArr [JObj [(''message'',
         JObj [(''role'', JStr ''assistant''),
               (''tool_calls'',
                JArr [JObj [(''id'', JStr ''call_1''),
                            (''function'',
                             JObj [(''name'', JObj [(''toString'', JNum 1)]),
                                   (''arguments'', JStr ''{}'')])]])])]])]"

definition odd_tools_world :: world where
  "odd_tools_world =
     quiet_world
       \<lparr>net_post := (\<lambda>n. Response 200 odd_tool_request),
        JSON_parse := (\<lambda>v. if v = JStr ''{}'' then Some (JObj []) else None)\<rparr>"

section \<open>The search of the URL index\<close>

subsection \<open>The sort\<close>

lemma length_insort_cmp: "length (insort_cmp cmp x xs) = Suc (length xs)"
  by (induction xs) auto

lemma length_sort_cmp: "length (sort_cmp cmp xs) = length xs"
  by (induction xs) (auto simp: sort_cmp_def length_insort_cmp)

lemma set_insort_cmp: "set (insort_cmp cmp x xs) = insert x (set xs)"
  by (induction xs) auto

lemma set_sort_cmp: "set (sort_cmp cmp xs) = set xs"
  by (induction xs) (auto simp: sort_cmp_def set_insort_cmp)

lemma sorted_insort_desc:
  "sorted_wrt (\<lambda>a b. f b \<le> (f a :: int)) xs \<Longrightarrow>
   sorted_wrt (\<lambda>a b. f b \<le> f a) (insort_cmp (\<lambda>a b. f b - f a) x xs)"
  by (induction xs) (auto simp: set_insort_cmp)

lemma sorted_sort_desc:
  "sorted_wrt (\<lambda>a b. f b \<le> (f a :: int)) (sort_cmp (\<lambda>a b. f b - f a) xs)"
  by (induction xs) (auto simp: sort_cmp_def sorted_insort_desc)

lemma filter_insort_other:
  "\<not> P x \<Longrightarrow> filter P (insort_cmp cmp x xs) = filter P xs"
  by (induction xs) auto

lemma filter_insort_same:
  "sorted_wrt (\<lambda>a b. f b \<le> (f a :: int)) xs \<Longrightarrow>
   filter (\<lambda>y. f y = f x) (insort_cmp (\<lambda>a b. f b - f a) x xs)
   = x # filter (\<lambda>y. f y = f x) xs"
  by (induction xs) (auto simp: filter_empty_conv)

text \<open>The sort is stable: the elements of one score keep their order.\<close>

lemma sort_cmp_stable:
  "filter (\<lambda>y. f y = k) (sort_cmp (\<lambda>a b. f b - f a) xs) = filter (\<lambda>y. (f y :: int) = k) xs"
proof (induction xs)
  case Nil
  then show ?case by (simp add: sort_cmp_def)
next
  case (Cons x xs)
  have step: "sort_cmp (\<lambda>a b. f b - f a) (x # xs)
              = insort_cmp (\<lambda>a b. f b - f a) x (sort_cmp (\<lambda>a b. f b - f a) xs)"
    by (simp add: sort_cmp_def)
  show ?case
  proof (cases "f x = k")
    case True
    then show ?thesis
      using filter_insort_same [OF sorted_sort_desc, of f x xs] Cons.IH by (simp add: step)
  next
    case False
    then show ?thesis using Cons.IH by (simp add: step filter_insort_other)
  qed
qed

lemma sort_cmp_ties:
  "\<forall>x\<in>set xs. \<forall>y\<in>set xs. cmp x y \<le> 0 \<Longrightarrow> sort_cmp cmp xs = xs"
proof (induction xs)
  case Nil
  then show ?case by (simp add: sort_cmp_def)
next
  case (Cons x xs)
  then have "sort_cmp cmp xs = xs" by simp
  then have "sort_cmp cmp (x # xs) = insort_cmp cmp x xs" by (simp add: sort_cmp_def)
  then show ?case using Cons.prems by (cases xs) auto
qed

lemma slice0_nonneg: "0 \<le> e \<Longrightarrow> slice0 xs e = take (nat e) xs"
  by (simp add: slice0_def)

lemma sorted_wrt_take: "sorted_wrt P xs \<Longrightarrow> sorted_wrt P (take n xs)"
  by (metis append_take_drop_id sorted_wrt_append)

lemma score_with_score [simp]: "score (with_score r s) = s"
  by (simp add: with_score_def)

lemma js_includes_empty [simp]: "js_includes s []"
  by (cases s) auto

subsection \<open>Length, positive scores, order and stability\<close>

text \<open>
  Claim C4. For every query and every limit that is not negative, \<^verbatim>\<open>searchUrls\<close>
  returns at most \<open>limit\<close> records, each with a score above 0, in descending order of
  score; and for every score \<open>k\<close>, the returned records of score \<open>k\<close> are the first
  records of score \<open>k\<close> of the index, in the order of the index.
\<close>

theorem searchUrls_ranked:
  assumes "0 \<le> limit"
  shows "int (length (searchUrls index query limit)) \<le> limit
       \<and> (\<forall>r \<in> set (searchUrls index query limit). score r > 0)
       \<and> sorted_wrt (\<lambda>a b. score a \<ge> score b) (searchUrls index query limit)
       \<and> (\<forall>k. prefix (filter (\<lambda>r. score r = k) (searchUrls index query limit))
                      (filter (\<lambda>r. score r = k) (scored index query)))"
proof -
  let ?pos = "filter (\<lambda>item. score item > 0) (scored index query)"
  let ?sorted = "sort_cmp (\<lambda>a b. score b - score a) ?pos"
  have res: "searchUrls index query limit = take (nat limit) ?sorted"
    using assms by (simp add: searchUrls_def slice0_nonneg)
  have len: "int (length (searchUrls index query limit)) \<le> limit"
    using assms by (simp add: res)
  have "set (searchUrls index query limit) \<subseteq> set ?pos"
    unfolding res using set_take_subset [of "nat limit" ?sorted] by (simp add: set_sort_cmp)
  then have pos: "\<forall>r \<in> set (searchUrls index query limit). score r > 0"
    by auto
  have srt: "sorted_wrt (\<lambda>a b. score a \<ge> score b) (searchUrls index query limit)"
    unfolding res by (rule sorted_wrt_take) (rule sorted_sort_desc)
  have stab: "prefix (filter (\<lambda>r. score r = k) (searchUrls index query limit))
                     (filter (\<lambda>r. score r = k) (scored index query))" for k
  proof -
    have "prefix (filter (\<lambda>r. score r = k) (take (nat limit) ?sorted))
                 (filter (\<lambda>r. score r = k) ?sorted)"
      by (rule filter_mono_prefix) (rule take_is_prefix)
    moreover have "filter (\<lambda>r. score r = k) ?sorted = filter (\<lambda>r. score r = k) ?pos"
      by (rule sort_cmp_stable)
    moreover have "filter (\<lambda>r. score r = k) ?pos
                   = (if k > 0 then filter (\<lambda>r. score r = k) (scored index query) else [])"
      by (auto simp: filter_empty_conv intro: filter_cong)
    ultimately show ?thesis by (simp add: res split: if_splits)
  qed
  from len pos srt stab show ?thesis by blast
qed

theorem searchUrls_ranked_witness:
  "(0::int) \<le> 1
   \<and> map url (searchUrls [ssl_record, ssl_record\<lparr>url := ''https://www.vsf.technology/ssl/''\<rparr>]
                ''ssl'' 1)
     = [''https://www.vsf.technology/ssl-certificates/'']
   \<and> int (length (searchUrls [ssl_record, ssl_record\<lparr>url := ''https://www.vsf.technology/ssl/''\<rparr>]
                ''ssl'' 1)) \<le> 1"
proof -
  have h: "(0::int) \<le> 1" by simp
  have "map url (searchUrls [ssl_record, ssl_record\<lparr>url := ''https://www.vsf.technology/ssl/''\<rparr>]
                ''ssl'' 1)
        = [''https://www.vsf.technology/ssl-certificates/'']"
    by (simp add: searchUrls_def scored_def score_of_def toLowerCase_def toLowerCase_char_def
          ssl_record_def with_score_def sort_cmp_def slice0_def Let_def)
  then show ?thesis
    using h searchUrls_ranked [OF h, of "[ssl_record, ssl_record\<lparr>url := ''https://www.vsf.technology/ssl/''\<rparr>]" "''ssl''"]
    by simp
qed

subsection \<open>The score\<close>

lemma fold_add_ten:
  "fold (\<lambda>word s. if P word then s + 10 else s) ws (s0 :: int)
   = s0 + (\<Sum>t\<leftarrow>ws. if P t then 10 else 0)"
  by (induction ws arbitrary: s0) auto

lemma score_of_closed:
  "score_of (toLowerCase query)
     (filter (\<lambda>w. length w > 2) (js_split (CHR '' '') (toLowerCase query))) r
   = claimed_score (js_split (CHR '' '')) query r"
  by (simp add: score_of_def claimed_score_def Let_def fold_add_ten)

lemma claimed_score_nonneg: "0 \<le> claimed_score tokens query r"
  by (auto simp: claimed_score_def Let_def intro!: add_nonneg_nonneg sum_list_nonneg)

text \<open>
  Claim C5, as stated, at a query with a tab between two words: the specification's
  tokens are the two words, the first of which occurs in the keyword text of the record,
  so the score the claim describes is 10 and the record belongs to the result. The code
  splits at spaces only, finds one token, which does not occur, and leaves the record out.
\<close>

theorem searchUrls_tab_counterexample:
  "claimed_score ws_tokens tab_query ssl_record = 10
   \<and> searchUrls [ssl_record] tab_query 5 = []"
  by (simp add: claimed_score_def searchUrls_def scored_def score_of_def toLowerCase_def
        toLowerCase_char_def is_whitespace_def tab_query_def ssl_record_def with_score_def
        sort_cmp_def slice0_def Let_def)

text \<open>
  Claim C5, amended: the tokens are the pieces of the lower-cased query between space
  characters. The result of \<^verbatim>\<open>searchUrls\<close> is made of the records whose score, the sum
  the specification describes over these tokens, is not 0, each with that score.
\<close>

theorem searchUrls_scores:
  "searchUrls index query limit =
     slice0 (sort_cmp (\<lambda>a b. score b - score a)
               (map (\<lambda>r. with_score r (claimed_score (js_split (CHR '' '')) query r))
                    (filter (\<lambda>r. claimed_score (js_split (CHR '' '')) query r \<noteq> 0) index)))
            limit"
proof -
  let ?s = "claimed_score (js_split (CHR '' '')) query"
  have "scored index query = map (\<lambda>r. with_score r (?s r)) index"
    by (simp add: scored_def Let_def score_of_closed)
  moreover have "filter (\<lambda>item. score item > 0) (map (\<lambda>r. with_score r (?s r)) index)
                 = map (\<lambda>r. with_score r (?s r)) (filter (\<lambda>r. ?s r \<noteq> 0) index)"
    using claimed_score_nonneg [of "js_split (CHR '' '')" query]
    by (auto simp: filter_map o_def order_less_le intro: filter_cong)
  ultimately show ?thesis by (simp add: searchUrls_def)
qed

subsection \<open>The empty query\<close>

text \<open>
  Claim C10. For every index and every limit of at least 1, the search for the empty
  query returns the first \<open>limit\<close> records of the index (all of them when there are
  fewer), in the order of the index, each with the score 100.
\<close>

theorem searchUrls_empty_query:
  assumes "1 \<le> limit"
  shows "searchUrls index [] limit = map (\<lambda>r. with_score r 100) (take (nat limit) index)"
proof -
  have sc: "scored index [] = map (\<lambda>r. with_score r 100) index"
    by (simp add: scored_def toLowerCase_def score_of_def)
  have "sort_cmp (\<lambda>a b. score b - score a) (map (\<lambda>r. with_score r 100) index)
        = map (\<lambda>r. with_score r 100) index"
    by (rule sort_cmp_ties) auto
  then show ?thesis
    using assms by (simp add: searchUrls_def sc slice0_nonneg take_map)
qed

theorem searchUrls_empty_query_witness:
  "(1::int) \<le> 1
   \<and> searchUrls [ssl_record, ssl_record\<lparr>category := ''blog''\<rparr>] [] 1
     = [with_score ssl_record 100]"
proof -
  have h: "(1::int) \<le> 1" by simp
  show ?thesis
    using h searchUrls_empty_query [OF h, of "[ssl_record, ssl_record\<lparr>category := ''blog''\<rparr>]"]
    by simp
qed

section \<open>The model call and its retries\<close>

lemma attempt_call_eq:
  "attempt_call messages w =
     (attempt_outcome (net_post w (posts w)),
      w\<lparr>posts := posts w + 1, trace := trace w @ [Post messages]\<rparr>)"
  by (auto simp: attempt_call_def axios_post_def attempt_outcome_def Let_def
           split: post_outcome.splits)

lemma loop_done:
  "attempt \<le> retries \<Longrightarrow> attempt_outcome (net_post w (posts w)) = Inr body \<Longrightarrow>
   callOpenRouterAPI_loop attempt retries messages w =
     (Inr body, w\<lparr>posts := posts w + 1, trace := trace w @ [Post messages]\<rparr>)"
  by (subst callOpenRouterAPI_loop.simps) (simp add: attempt_call_eq)

lemma loop_last:
  "attempt_outcome (net_post w (posts w)) = Inl e \<Longrightarrow>
   callOpenRouterAPI_loop retries retries messages w =
     (Inl e, w\<lparr>posts := posts w + 1, trace := trace w @ [Post messages]\<rparr>)"
  by (subst callOpenRouterAPI_loop.simps) (simp add: attempt_call_eq)

lemma loop_retry:
  "attempt < retries \<Longrightarrow> attempt_outcome (net_post w (posts w)) = Inl e \<Longrightarrow>
   callOpenRouterAPI_loop attempt retries messages w =
     callOpenRouterAPI_loop (attempt + 1) retries messages
       (w\<lparr>posts := posts w + 1,
          trace := trace w @ [Post messages, Wait (waitTime attempt)]\<rparr>)"
  by (subst callOpenRouterAPI_loop.simps) (simp add: attempt_call_eq)

text \<open>
  For any number of retries: when every attempt fails, there are as many requests as
  retries, a wait of \<open>waitTime k\<close> follows the \<open>k\<close>-th request but the last, and the
  exception of the last attempt is raised.
\<close>

lemma loop_all_fail:
  assumes "\<forall>k<n. isl (attempt_outcome (net_post w (posts w + k)))"
  shows "callOpenRouterAPI_loop (Suc a) (a + n) messages w =
           (if n = 0 then (Inr JUndefined, w)
            else (attempt_outcome (net_post w (posts w + n - 1)),
                  w\<lparr>posts := posts w + n,
                     trace := trace w
                       @ concat (map (\<lambda>k. [Post messages, Wait (waitTime k)]) [Suc a..<a + n])
                       @ [Post messages]\<rparr>))"
  using assms
proof (induction n arbitrary: a w)
  case 0
  show ?case by (subst callOpenRouterAPI_loop.simps) simp
next
  case (Suc n)
  from Suc.prems [rule_format, of 0] obtain e where
    e: "attempt_outcome (net_post w (posts w)) = Inl e"
    by (auto simp: isl_def)
  show ?case
  proof (cases n)
    case 0
    then show ?thesis using loop_last [of w e "Suc a" messages] e by simp
  next
    case (Suc m)
    let ?w1 = "w\<lparr>posts := posts w + 1,
                  trace := trace w @ [Post messages, Wait (waitTime (Suc a))]\<rparr>"
    have fails: "\<forall>k<n. isl (attempt_outcome (net_post ?w1 (posts ?w1 + k)))"
      using Suc.prems [rule_format, of "Suc k" for k] by simp
    have range: "[Suc a..<a + Suc n] = Suc a # [Suc (Suc a)..<Suc a + n]"
      using Suc by (simp add: upt_conv_Cons del: upt_Suc)
    have "callOpenRouterAPI_loop (Suc a) (a + Suc n) messages w
          = callOpenRouterAPI_loop (Suc (Suc a)) (Suc a + n) messages ?w1"
      using loop_retry [of "Suc a" "a + Suc n" w e messages] e Suc by simp
    also have "\<dots> = (attempt_outcome (net_post ?w1 (posts ?w1 + n - 1)),
                  ?w1\<lparr>posts := posts ?w1 + n,
                     trace := trace ?w1
                       @ concat (map (\<lambda>k. [Post messages, Wait (waitTime k)])
                                     [Suc (Suc a)..<Suc a + n])
                       @ [Post messages]\<rparr>)"
      using Suc.IH [OF fails, of "Suc a"] Suc by simp
    finally show ?thesis
      unfolding range using Suc by simp
  qed
qed

text \<open>
  The failures that the code recognises are the attempts that fail: a request without a
  response, a status other than 200 (whether axios rejects it or line 136 does), and a
  body without a first choice.
\<close>

lemma attempt_outcome_no_response:
  "attempt_outcome (NoResponse code) = Inl (AxiosError code)"
  by (simp add: attempt_outcome_def)

lemma attempt_outcome_status:
  "status \<noteq> 200 \<Longrightarrow>
   attempt_outcome (Response status body)
     = Inl (if 200 \<le> status \<and> status < 500 then ApiStatus status body
            else RejectedStatus status body)"
  by (simp add: attempt_outcome_def check_response_def)

lemma check_response_lacks_choice:
  "isl (check_response 200 body) = lacks_choice body"
proof (cases body)
  case (JObj kvs)
  show ?thesis
  proof (cases "map_of kvs ''choices''")
    case None
    with JObj show ?thesis by (simp add: check_response_def lacks_choice_def)
  next
    case (Some choices)
    with JObj show ?thesis
      by (cases choices) (simp_all add: check_response_def lacks_choice_def split: list.splits)
  qed
qed (simp_all add: check_response_def lacks_choice_def)

lemma recognised_failure_fails:
  "isl (attempt_outcome out) = recognised_failure out"
proof (cases out)
  case (NoResponse code)
  then show ?thesis by (simp add: attempt_outcome_def)
next
  case (Response status body)
  show ?thesis
  proof (cases "status = 200")
    case True
    with Response show ?thesis
      using check_response_lacks_choice [of body] by (simp add: attempt_outcome_def)
  next
    case False
    with Response show ?thesis by (simp add: attempt_outcome_status)
  qed
qed

text \<open>
  When each of the next three requests meets a failure that the code recognises,
  \<^verbatim>\<open>callOpenRouterAPI\<close> with its 3 retries makes exactly three requests, waits 1000 ms
  after the first and 2000 ms after the second, which are \<open>waitTime 1\<close> and
  \<open>waitTime 2\<close>, and raises the exception of the third.
\<close>

lemma callOpenRouterAPI_three_failures:
  assumes "\<forall>k<3. recognised_failure (net_post w (posts w + k))"
  shows "callOpenRouterAPI messages 3 w =
           (attempt_outcome (net_post w (posts w + 2)),
            w\<lparr>posts := posts w + 3,
               trace := trace w @ [Post messages, Wait 1000, Post messages, Wait 2000,
                                   Post messages]\<rparr>)
         \<and> isl (attempt_outcome (net_post w (posts w + 2)))
         \<and> waitTime 1 = 1000 \<and> waitTime 2 = 2000"
proof -
  obtain e0 e1 e2 where
    e0: "attempt_outcome (net_post w (posts w)) = Inl e0" and
    e1: "attempt_outcome (net_post w (Suc (posts w))) = Inl e1" and
    e2: "attempt_outcome (net_post w (Suc (Suc (posts w)))) = Inl e2"
    using assms [rule_format, of 0] assms [rule_format, of 1] assms [rule_format, of 2]
    by (auto simp: isl_def recognised_failure_fails [symmetric])
  have t: "waitTime (Suc 0) = 1000" "waitTime (Suc (Suc 0)) = 2000"
    by (simp_all add: waitTime_def)
  let ?w1 = "w\<lparr>posts := Suc (posts w), trace := trace w @ [Post messages, Wait 1000]\<rparr>"
  let ?w2 = "w\<lparr>posts := Suc (Suc (posts w)),
               trace := trace w @ [Post messages, Wait 1000, Post messages, Wait 2000]\<rparr>"
  have "callOpenRouterAPI messages 3 w
        = callOpenRouterAPI_loop (Suc 0) (Suc (Suc (Suc 0))) messages w"
    by (simp add: callOpenRouterAPI_def numeral_3_eq_3)
  also have "\<dots> = callOpenRouterAPI_loop (Suc (Suc 0)) (Suc (Suc (Suc 0))) messages ?w1"
    using loop_retry [of "Suc 0" "Suc (Suc (Suc 0))" w e0 messages] e0 t by simp
  also have "\<dots> = callOpenRouterAPI_loop (Suc (Suc (Suc 0))) (Suc (Suc (Suc 0))) messages ?w2"
    using loop_retry [of "Suc (Suc 0)" "Suc (Suc (Suc 0))" ?w1 e1 messages] e1 t by simp
  also have "\<dots> = (Inl e2, w\<lparr>posts := Suc (Suc (Suc (posts w))),
               trace := trace w @ [Post messages, Wait 1000, Post messages, Wait 2000,
                                   Post messages]\<rparr>)"
    using loop_last [of ?w2 e2 "Suc (Suc (Suc 0))" messages] e2 by simp
  finally show ?thesis
    using e2 t by (simp add: numeral_3_eq_3 numeral_2_eq_2)
qed

text \<open>A time-out, then a status 429, then a body without \<^verbatim>\<open>choices\<close>: three attempts.\<close>

lemma callOpenRouterAPI_refusing:
  "callOpenRouterAPI messages 3 refusing_world
   = (Inl InvalidResponseFormat,
      refusing_world
        \<lparr>posts := 3,
         trace := [Post messages, Wait 1000, Post messages, Wait 2000, Post messages]\<rparr>)"
proof -
  have h: "\<forall>k<3. recognised_failure (net_post refusing_world (posts refusing_world + k))"
    by (simp add: refusing_world_def quiet_world_def lacks_choice_def)
  show ?thesis
    using callOpenRouterAPI_three_failures [OF h, of messages]
    by (simp add: refusing_world_def quiet_world_def attempt_outcome_def check_response_def)
qed

text \<open>
  Claim C1. The claim counts a malformed response among the failures of a model call,
  and the specification takes as malformed every response without
  \<^verbatim>\<open>choices[0].message\<close>. The check of line 140 stops at \<^verbatim>\<open>choices[0]\<close>: a response
  whose first choice has no \<^verbatim>\<open>message\<close> is no failure for \<^verbatim>\<open>callOpenRouterAPI\<close>.
  When the first request times out and the second gets such a response, the call makes
  two requests, not three, waits once, and returns the response instead of raising.
  For the failures that the code recognises the three attempts, the waits of 1000 and
  2000 ms and the exception are as the claim says (\<open>callOpenRouterAPI_three_failures\<close>).
\<close>

theorem callOpenRouterAPI_two_attempts:
  "callOpenRouterAPI messages 3 flaky_world
   = (Inr shapeless_data,
      flaky_world\<lparr>posts := 2, trace := [Post messages, Wait 1000, Post messages]\<rparr>)
   \<and> get_prop (JObj []) ''message'' = Inr JUndefined
   \<and> shapeless_data = JObj [(''choices'', JArr [JObj []])]"
proof -
  have t: "waitTime (Suc 0) = 1000" by (simp add: waitTime_def)
  let ?w1 = "flaky_world\<lparr>posts := Suc 0, trace := [Post messages, Wait 1000]\<rparr>"
  have e0: "attempt_outcome (net_post flaky_world (posts flaky_world))
            = Inl (AxiosError ''ECONNABORTED'')"
    by (simp add: flaky_world_def quiet_world_def attempt_outcome_def)
  have e1: "attempt_outcome (net_post ?w1 (posts ?w1)) = Inr shapeless_data"
    by (simp add: flaky_world_def quiet_world_def attempt_outcome_def check_response_def
        shapeless_data_def)
  have "callOpenRouterAPI messages 3 flaky_world
        = callOpenRouterAPI_loop (Suc 0) (Suc (Suc (Suc 0))) messages flaky_world"
    by (simp add: callOpenRouterAPI_def numeral_3_eq_3)
  also have "\<dots> = callOpenRouterAPI_loop (Suc (Suc 0)) (Suc (Suc (Suc 0))) messages ?w1"
    using loop_retry [of "Suc 0" "Suc (Suc (Suc 0))" flaky_world _ messages, OF _ e0] t
    by (simp add: flaky_world_def quiet_world_def)
  also have "\<dots> = (Inr shapeless_data,
                  ?w1\<lparr>posts := posts ?w1 + 1, trace := trace ?w1 @ [Post messages]\<rparr>)"
    using loop_done [of "Suc (Suc 0)" "Suc (Suc (Suc 0))" ?w1 shapeless_data messages, OF _ e1]
    by simp
  finally show ?thesis
    by (simp add: shapeless_data_def numeral_2_eq_2)
qed

section \<open>The page cache and the batches of fetches\<close>

lemma advances_refl [simp]: "advances w w"
  by (simp add: advances_def)

lemma advances_trans:
  assumes "advances w w1" and "advances w1 w2"
  shows "advances w w2"
proof -
  have keep: "cache_get w2 u = Some r" if "cache_get w u = Some r" for u r
    using that assms by (simp add: advances_def)
  have new: "cache w u = Some p \<or> page_url p = u" if "cache w2 u = Some p" for u p
  proof -
    from that assms(2) have "cache w1 u = Some p \<or> page_url p = u"
      by (simp add: advances_def)
    then show ?thesis using assms(1) by (auto simp: advances_def)
  qed
  show ?thesis
    unfolding advances_def using assms keep new by (simp add: advances_def)
qed

lemma quietly_refl [simp]: "quietly w w"
  by (simp add: quietly_def)

lemma quietly_trans: "quietly w w1 \<Longrightarrow> quietly w1 w2 \<Longrightarrow> quietly w w2"
  by (auto simp: quietly_def intro: advances_trans)

lemma cache_wf_advances:
  assumes "cache_wf w" and "advances w w'"
  shows "cache_wf w'"
  unfolding cache_wf_def
proof (intro allI impI)
  fix u p assume "cache w' u = Some p"
  with assms(2) have "cache w u = Some p \<or> page_url p = u" by (simp add: advances_def)
  with assms(1) show "page_url p = u" by (auto simp: cache_wf_def)
qed

lemma cache_get_wf: "cache_wf w \<Longrightarrow> cache_get w u = Some r \<Longrightarrow> page_url r = u"
  by (auto simp: cache_wf_def cache_get_def split: json.splits)

lemma cache_get_cong: "cache w' = cache w \<Longrightarrow> cache_get w' u = cache_get w u"
  by (cases u) (simp_all add: cache_get_def)

lemma quietly_same_cache:
  assumes "net_post w' = net_post w" "net_get w' = net_get w" "JSON_parse w' = JSON_parse w"
    "ToNumber w' = ToNumber w" "sitemap_urls w' = sitemap_urls w" "cache w' = cache w"
    "conversationHistory w' = conversationHistory w"
  shows "quietly w w'"
  using assms cache_get_cong [OF assms(6)] by (simp add: quietly_def advances_def)

lemma page_url_build_result [simp]: "page_url (build_result u doc now) = u"
  by (simp add: build_result_def Let_def)

lemma fetched_by_url:
  assumes "fetched_by w lo hi u p"
  shows "page_url p = u"
proof -
  from assms obtain n where
    "(case net_get w n u of GetOk doc now \<Rightarrow> p = build_result u doc now
      | GetRejected msg \<Rightarrow> False)"
    by (auto simp: fetched_by_def)
  then show ?thesis by (cases "net_get w n u") simp_all
qed

lemma fetched_by_mono:
  assumes "fetched_by w lo hi u p" and "net_get w' = net_get w" and "lo' \<le> lo" and "hi \<le> hi'"
  shows "fetched_by w' lo' hi' u p"
proof -
  from assms(1) obtain n where n: "lo \<le> n" "n < hi"
    "(case net_get w n u of GetOk doc now \<Rightarrow> p = build_result u doc now
      | GetRejected msg \<Rightarrow> False)"
    by (auto simp: fetched_by_def)
  from n(1,2) assms(3,4) have "n \<in> {lo'..<hi'}" by simp
  with n(3) assms(2) show ?thesis unfolding fetched_by_def by auto
qed

lemma failed_by_mono:
  assumes "failed_by w lo hi u e" and "net_get w' = net_get w" and "lo' \<le> lo" and "hi \<le> hi'"
  shows "failed_by w' lo' hi' u e"
proof -
  from assms(1) obtain n where n: "lo \<le> n" "n < hi"
    "(case net_get w n u of GetOk doc now \<Rightarrow> False
      | GetRejected msg \<Rightarrow> e = FetchFailed u (AxiosError msg))"
    by (auto simp: failed_by_def)
  from n(1,2) assms(3,4) have "n \<in> {lo'..<hi'}" by simp
  with n(3) assms(2) show ?thesis unfolding failed_by_def by auto
qed

lemma cache_get_cache: "cache_get w u = Some r \<Longrightarrow> cache w u = Some r"
  by (cases u) (simp_all add: cache_get_def)

lemma cache_cache_get:
  "cache w u = Some r \<Longrightarrow> cache_get w' u = Some r' \<Longrightarrow> cache_get w u = Some r"
  by (cases u) (simp_all add: cache_get_def)

lemma scrapes_refl [simp]: "scrapes w w"
  by (simp add: scrapes_def)

lemma scrapes_trans:
  assumes "scrapes w w1" and "scrapes w1 w2"
  shows "scrapes w w2"
proof -
  have le: "gets w \<le> gets w1" "gets w1 \<le> gets w2" and ng: "net_get w1 = net_get w"
    using assms by (simp_all add: scrapes_def)
  have keep: "cache_get w2 u = Some r" if "cache_get w u = Some r" for u r
    using that assms by (simp add: scrapes_def)
  have new: "cache w u = Some p \<or> fetched_by w (gets w) (gets w2) u p"
    if "cache w2 u = Some p" for u p
  proof -
    from that assms(2) have "cache w1 u = Some p \<or> fetched_by w1 (gets w1) (gets w2) u p"
      by (simp add: scrapes_def)
    then show ?thesis
    proof
      assume "cache w1 u = Some p"
      with assms(1) have "cache w u = Some p \<or> fetched_by w (gets w) (gets w1) u p"
        by (simp add: scrapes_def)
      then show ?thesis
      proof
        assume "cache w u = Some p"
        then show ?thesis by simp
      next
        assume "fetched_by w (gets w) (gets w1) u p"
        from fetched_by_mono [OF this refl le_refl le(2)] show ?thesis by simp
      qed
    next
      assume "fetched_by w1 (gets w1) (gets w2) u p"
      from fetched_by_mono [OF this ng [symmetric] le(1) le_refl] show ?thesis by simp
    qed
  qed
  from le have le2: "gets w \<le> gets w2" by simp
  show ?thesis
    unfolding scrapes_def using assms keep new le2 by (simp add: scrapes_def)
qed

lemma scrapes_quietly:
  assumes "scrapes w w'"
  shows "quietly w w'"
proof -
  have "cache w u = Some p \<or> page_url p = u" if "cache w' u = Some p" for u p
  proof -
    from that assms have "cache w u = Some p \<or> fetched_by w (gets w) (gets w') u p"
      by (simp add: scrapes_def)
    then show ?thesis using fetched_by_url by blast
  qed
  then show ?thesis
    unfolding quietly_def advances_def using assms by (simp add: scrapes_def)
qed

lemma scrapes_same_cache:
  assumes "net_post w' = net_post w" "net_get w' = net_get w" "JSON_parse w' = JSON_parse w"
    "ToNumber w' = ToNumber w" "sitemap_urls w' = sitemap_urls w" "cache w' = cache w"
    "conversationHistory w' = conversationHistory w" "posts w' = posts w" "gets w \<le> gets w'"
  shows "scrapes w w'"
  using assms cache_get_cong [OF assms(6)] by (simp add: scrapes_def)

lemma pending_ok_mono:
  assumes "pending_ok w lo hi u p" and "cache w' = cache w" and "lo' \<le> lo" and "hi \<le> hi'"
  shows "pending_ok w' lo' hi' u p"
  using assms cache_get_cong [OF assms(2), of u] by (cases p) (auto simp: pending_ok_def)

lemma outcome_of_url:
  assumes "cache_wf w" and "outcome_of w lo hi u x"
  shows "result_url x = u"
proof (cases x)
  case (Page p)
  with assms(2) have "cache_get w u = Some p \<or> fetched_by w lo hi u p"
    by (simp add: outcome_of_def)
  then have "page_url p = u"
    using cache_get_wf [OF assms(1)] fetched_by_url by blast
  with Page show ?thesis by simp
next
  case (Failed v e)
  with assms(2) show ?thesis by (simp add: outcome_of_def)
qed

lemma outcome_of_mono:
  assumes "outcome_of w lo hi u x" and "lo' \<le> lo" and "hi \<le> hi'"
  shows "outcome_of w lo' hi' u x"
proof (cases x)
  case (Page p)
  with assms(1) have "cache_get w u = Some p \<or> fetched_by w lo hi u p"
    by (simp add: outcome_of_def)
  then have "cache_get w u = Some p \<or> fetched_by w lo' hi' u p"
    using fetched_by_mono [OF _ refl assms(2,3)] by blast
  with Page show ?thesis by (simp add: outcome_of_def)
next
  case (Failed v e)
  with assms(1) have v: "v = u"
    and e: "if unprintable u then e = TypeError else failed_by w lo hi u e"
    by (simp_all add: outcome_of_def)
  have "failed_by w lo' hi' u e" if "failed_by w lo hi u e"
    using failed_by_mono [OF that refl assms(2,3)] .
  with Failed v e show ?thesis by (simp add: outcome_of_def)
qed

lemma outcome_of_rebase:
  assumes "outcome_of w1 (gets w1) hi u x" and "scrapes w w1" and "gets w1 \<le> hi"
  shows "outcome_of w (gets w) hi u x"
proof -
  have ng: "net_get w1 = net_get w" and le: "gets w \<le> gets w1"
    using assms(2) by (simp_all add: scrapes_def)
  show ?thesis
  proof (cases x)
    case (Page p)
    with assms(1) have "cache_get w1 u = Some p \<or> fetched_by w1 (gets w1) hi u p"
      by (simp add: outcome_of_def)
    then have "cache_get w u = Some p \<or> fetched_by w (gets w) hi u p"
    proof
      assume c: "cache_get w1 u = Some p"
      then have "cache w1 u = Some p" by (rule cache_get_cache)
      with assms(2) have "cache w u = Some p \<or> fetched_by w (gets w) (gets w1) u p"
        by (simp add: scrapes_def)
      then show ?thesis
      proof
        assume "cache w u = Some p"
        from cache_cache_get [OF this c] show ?thesis by simp
      next
        assume "fetched_by w (gets w) (gets w1) u p"
        from fetched_by_mono [OF this refl le_refl assms(3)] show ?thesis by simp
      qed
    next
      assume "fetched_by w1 (gets w1) hi u p"
      from fetched_by_mono [OF this ng [symmetric] le le_refl] show ?thesis by simp
    qed
    with Page show ?thesis by (simp add: outcome_of_def)
  next
    case (Failed v e)
    with assms(1) have v: "v = u"
      and e: "if unprintable u then e = TypeError else failed_by w1 (gets w1) hi u e"
      by (simp_all add: outcome_of_def)
    have "failed_by w (gets w) hi u e" if "failed_by w1 (gets w1) hi u e"
      using failed_by_mono [OF that ng [symmetric] le le_refl] .
    with Failed v e show ?thesis by (simp add: outcome_of_def)
  qed
qed

lemma fetch_begin_scrapes:
  assumes "fetch_begin u w = (p, w1)"
  shows "scrapes w w1" and "cache w1 = cache w" and "gets w1 \<le> gets w + 1"
    and "pending_ok w (gets w) (gets w1) u p"
proof -
  show c: "cache w1 = cache w"
    using assms by (auto simp: fetch_begin_def split: option.splits if_splits)
  show "scrapes w w1"
    using assms
    by (intro scrapes_same_cache) (auto simp: fetch_begin_def split: option.splits if_splits)
  show "gets w1 \<le> gets w + 1"
    using assms by (auto simp: fetch_begin_def split: option.splits if_splits)
  show "pending_ok w (gets w) (gets w1) u p"
    using assms by (auto simp: fetch_begin_def pending_ok_def split: option.splits if_splits)
qed

lemma begin_all_scrapes:
  "begin_all us w = (ps, w1) \<Longrightarrow>
   scrapes w w1 \<and> cache w1 = cache w \<and> length ps = length us
   \<and> gets w1 \<le> gets w + length us
   \<and> (\<forall>i<length us. pending_ok w (gets w) (gets w1) (us ! i) (ps ! i))"
proof (induction us arbitrary: w ps w1)
  case Nil
  then show ?case by simp
next
  case (Cons u us)
  obtain p wa where b: "fetch_begin u w = (p, wa)" by (cases "fetch_begin u w")
  obtain ps' wb where r: "begin_all us wa = (ps', wb)" by (cases "begin_all us wa")
  from Cons.prems b r have eq: "ps = p # ps'" "w1 = wb" by auto
  note 1 = fetch_begin_scrapes [OF b]
  from Cons.IH [OF r] have 2: "scrapes wa wb" "cache wb = cache wa" "length ps' = length us"
    "gets wb \<le> gets wa + length us"
    "\<forall>i<length us. pending_ok wa (gets wa) (gets wb) (us ! i) (ps' ! i)" by auto
  have le: "gets w \<le> gets wa" "gets wa \<le> gets wb"
    using 1(1) 2(1) by (simp_all add: scrapes_def)
  have head: "pending_ok w (gets w) (gets wb) u p"
    using pending_ok_mono [OF 1(4) refl le_refl le(2)] .
  have rest: "pending_ok w (gets w) (gets wb) (us ! i) (ps' ! i)" if "i < length us" for i
  proof -
    from 2(5) that have "pending_ok wa (gets wa) (gets wb) (us ! i) (ps' ! i)" by simp
    from pending_ok_mono [OF this 1(2) [symmetric] le(1) le_refl] show ?thesis .
  qed
  have "pending_ok w (gets w) (gets w1) ((u # us) ! i) (ps ! i)" if "i < length (u # us)" for i
    using that head rest eq by (cases i) auto
  moreover have "scrapes w w1"
    using scrapes_trans [OF 1(1) 2(1)] eq by simp
  moreover have "gets w1 \<le> gets w + length (u # us)"
    using 1(3) 2(4) eq by simp
  ultimately show ?case
    using 1(2) 2(2,3) eq by simp
qed

lemma fetch_end_scrapes:
  assumes "fetch_end u p w = (res, w')" and "scrapes w0 w" and "pending_ok w0 lo hi u p"
    and "gets w0 \<le> lo" and "hi \<le> gets w"
  shows "scrapes w0 w'" and "gets w' = gets w"
    and "outcome_of w0 lo hi u (case res of Inl err \<Rightarrow> Failed u err | Inr page \<Rightarrow> Page page)"
proof -
  have ng: "net_get w = net_get w0" using assms(2) by (simp add: scrapes_def)
  have "scrapes w0 w' \<and> gets w' = gets w
        \<and> outcome_of w0 lo hi u (case res of Inl err \<Rightarrow> Failed u err | Inr page \<Rightarrow> Page page)"
  proof (cases p)
    case (Cached r)
    with assms(3) have "cache_get w0 u = Some r" by (simp add: pending_ok_def)
    moreover from Cached assms(1) have "res = Inr r" "w' = w" by (simp_all add: fetch_end_def)
    ultimately show ?thesis using assms(2) by (simp add: outcome_of_def)
  next
    case Unprinted
    with assms(3) have "unprintable u" by (simp add: pending_ok_def)
    moreover from Unprinted assms(1) have "res = Inl TypeError" "w' = w"
      by (simp_all add: fetch_end_def)
    ultimately show ?thesis using assms(2) by (simp add: outcome_of_def)
  next
    case (Requested n)
    with assms(3) have none: "cache_get w0 u = None" and pr: "\<not> unprintable u"
      and n: "lo \<le> n" "n < hi"
      by (simp_all add: pending_ok_def)
    from n have nin: "n \<in> {lo..<hi}" by simp
    show ?thesis
    proof (cases "net_get w0 n u")
      case (GetRejected msg)
      with Requested assms(1) ng
      have r: "res = Inl (FetchFailed u (AxiosError msg))" "w' = w"
        by (simp_all add: fetch_end_def)
      have "failed_by w0 lo hi u (FetchFailed u (AxiosError msg))"
        unfolding failed_by_def using nin GetRejected by (intro bexI [of _ n]) simp_all
      with r pr assms(2) show ?thesis by (simp add: outcome_of_def)
    next
      case (GetOk doc now)
      with Requested assms(1) ng
      have w': "w' = w\<lparr>cache := (cache w)(u \<mapsto> build_result u doc now)\<rparr>"
        and r: "res = Inr (build_result u doc now)"
        by (simp_all add: fetch_end_def Let_def)
      have f: "fetched_by w0 lo hi u (build_result u doc now)"
        unfolding fetched_by_def using nin GetOk by (intro bexI [of _ n]) simp_all
      have f': "fetched_by w0 (gets w0) (gets w) u (build_result u doc now)"
        using fetched_by_mono [OF f refl assms(4,5)] .
      have keep: "cache_get w' v = Some q" if "cache_get w0 v = Some q" for v q
      proof -
        from that none have "v \<noteq> u" by auto
        moreover from that assms(2) have "cache_get w v = Some q" by (simp add: scrapes_def)
        ultimately show ?thesis unfolding w' by (cases v) (simp_all add: cache_get_def)
      qed
      have new: "cache w0 v = Some q \<or> fetched_by w0 (gets w0) (gets w) v q"
        if "cache w' v = Some q" for v q
      proof (cases "v = u")
        case True
        with that f' show ?thesis by (simp add: w')
      next
        case False
        with that have "cache w v = Some q" by (simp add: w')
        with assms(2) show ?thesis by (simp add: scrapes_def)
      qed
      have "scrapes w0 w'"
        unfolding scrapes_def using assms(2) keep new by (simp add: w' scrapes_def)
      with r f show ?thesis by (simp add: w' outcome_of_def)
    qed
  qed
  then show "scrapes w0 w'" and "gets w' = gets w"
    and "outcome_of w0 lo hi u (case res of Inl err \<Rightarrow> Failed u err | Inr page \<Rightarrow> Page page)"
    by simp_all
qed

lemma end_all_scrapes:
  "end_all ups w = (xs, w') \<Longrightarrow> scrapes w0 w \<Longrightarrow>
   \<forall>(v, p) \<in> set ups. pending_ok w0 lo hi v p \<Longrightarrow> gets w0 \<le> lo \<Longrightarrow> hi \<le> gets w \<Longrightarrow>
   scrapes w0 w' \<and> gets w' = gets w \<and> list_all2 (outcome_of w0 lo hi) (map fst ups) xs"
proof (induction ups arbitrary: w xs w')
  case Nil
  then show ?case by simp
next
  case (Cons up ups)
  obtain u p where up: "up = (u, p)" by (cases up)
  obtain res wa where e: "fetch_end u p w = (res, wa)" by (cases "fetch_end u p w")
  obtain xs' wb where r: "end_all ups wa = (xs', wb)" by (cases "end_all ups wa")
  from Cons.prems(3) up have ok: "pending_ok w0 lo hi u p"
    and rest: "\<forall>(v, p) \<in> set ups. pending_ok w0 lo hi v p"
    by auto
  from Cons.prems(1) up e r have eq:
    "xs = (case res of Inl err \<Rightarrow> Failed u err | Inr page \<Rightarrow> Page page) # xs'" "w' = wb"
    by (auto simp: Let_def)
  note fe = fetch_end_scrapes [OF e Cons.prems(2) ok Cons.prems(4,5)]
  from Cons.prems(5) fe(2) have hi: "hi \<le> gets wa" by simp
  from Cons.IH [OF r fe(1) rest Cons.prems(4) hi]
  have ih: "scrapes w0 wb" "gets wb = gets wa" "list_all2 (outcome_of w0 lo hi) (map fst ups) xs'"
    by blast+
  show ?case
    using ih fe(2,3) by (simp add: eq up)
qed

lemma fetch_batch_scrapes:
  assumes "fetch_batch batch w = (xs, w')"
  shows "scrapes w w'" and "gets w' \<le> gets w + length batch"
    and "list_all2 (outcome_of w (gets w) (gets w')) batch xs"
proof -
  obtain ps w1 where b: "begin_all batch w = (ps, w1)" by (cases "begin_all batch w")
  have "fetch_batch batch w = end_all (zip batch ps) w1"
    by (simp add: fetch_batch_def b)
  then have e: "end_all (zip batch ps) w1 = (xs, w')"
    using assms by simp
  from begin_all_scrapes [OF b] have 1: "scrapes w w1" "length ps = length batch"
    "gets w1 \<le> gets w + length batch"
    "\<forall>i<length batch. pending_ok w (gets w) (gets w1) (batch ! i) (ps ! i)" by auto
  have ok: "\<forall>(v, p) \<in> set (zip batch ps). pending_ok w (gets w) (gets w1) v p"
    using 1(2,4) by (auto simp: set_zip)
  from end_all_scrapes [OF e 1(1) ok le_refl le_refl] 1(2)
  have 2: "scrapes w w'" "gets w' = gets w1"
    "list_all2 (outcome_of w (gets w) (gets w1)) batch xs"
    by auto
  from 2 1(3) show "scrapes w w'" "gets w' \<le> gets w + length batch"
    "list_all2 (outcome_of w (gets w) (gets w')) batch xs"
    by simp_all
qed

lemma fetch_loop_scrapes:
  "fetch_loop i maxConcurrent us results w = Some (rs, w') \<Longrightarrow>
   \<exists>xs. rs = results @ xs \<and> scrapes w w' \<and> gets w' \<le> gets w + (length us - i)
        \<and> list_all2 (outcome_of w (gets w) (gets w')) (drop i us) xs"
proof (induction i maxConcurrent us results w rule: fetch_loop.induct)
  case (1 i maxConcurrent us results w)
  show ?case
  proof (cases "i < length us")
    case False
    with "1.prems" show ?thesis by (simp add: fetch_loop.simps)
  next
    case True
    with "1.prems" have pos: "maxConcurrent \<noteq> 0"
      by (auto simp: fetch_loop.simps [of i maxConcurrent] split: if_splits)
    let ?batch = "take maxConcurrent (drop i us)"
    obtain xs w1 where b: "fetch_batch ?batch w = (xs, w1)" by (cases "fetch_batch ?batch w")
    from "1.prems" True pos b
    have rec: "fetch_loop (i + maxConcurrent) maxConcurrent us (results @ xs) w1 = Some (rs, w')"
      by (simp add: fetch_loop.simps [of i maxConcurrent])
    note fb = fetch_batch_scrapes [OF b]
    from "1.IH" [OF True pos refl refl b [symmetric] rec]
    obtain ys where ih: "rs = (results @ xs) @ ys" "scrapes w1 w'"
      "gets w' \<le> gets w1 + (length us - (i + maxConcurrent))"
      "list_all2 (outcome_of w1 (gets w1) (gets w')) (drop (i + maxConcurrent) us) ys"
      by blast
    have le: "gets w1 \<le> gets w'" using ih(2) by (simp add: scrapes_def)
    have q: "scrapes w w'" using scrapes_trans [OF fb(1) ih(2)] .
    have len: "length ?batch \<le> length us - i" by simp
    have g: "gets w' \<le> gets w + (length us - i)"
    proof -
      have "length ?batch + (length us - (i + maxConcurrent)) = length us - i"
        using True by (simp add: min_def)
      with ih(3) fb(2) show ?thesis by linarith
    qed
    have first: "list_all2 (outcome_of w (gets w) (gets w')) ?batch xs"
      using fb(3) outcome_of_mono [OF _ le_refl le]
      by (rule list_all2_mono)
    have second: "list_all2 (outcome_of w (gets w) (gets w')) (drop (i + maxConcurrent) us) ys"
      using ih(4) outcome_of_rebase [OF _ fb(1) le]
      by (rule list_all2_mono)
    have "?batch @ drop (i + maxConcurrent) us = drop i us"
      by (metis add.commute append_take_drop_id drop_drop)
    with list_all2_appendI [OF first second]
    have "list_all2 (outcome_of w (gets w) (gets w')) (drop i us) (xs @ ys)" by simp
    with ih(1) q g show ?thesis by auto
  qed
qed

lemma fetch_loop_returns:
  "0 < maxConcurrent \<Longrightarrow> \<exists>r. fetch_loop i maxConcurrent us results w = Some r"
proof (induction i maxConcurrent us results w rule: fetch_loop.induct)
  case (1 i maxConcurrent us results w)
  show ?case
  proof (cases "i < length us")
    case False
    then show ?thesis by (simp add: fetch_loop.simps)
  next
    case True
    let ?batch = "take maxConcurrent (drop i us)"
    obtain xs w1 where b: "fetch_batch ?batch w = (xs, w1)" by (cases "fetch_batch ?batch w")
    from "1.prems" have pos: "maxConcurrent \<noteq> 0" by simp
    from "1.IH" [OF True pos refl refl b [symmetric] "1.prems"] True pos b show ?thesis
      by (simp add: fetch_loop.simps [of i maxConcurrent])
  qed
qed

text \<open>
  Claim C7. For every list of URLs and every batch size of at least 1 (3 by default),
  \<^verbatim>\<open>fetchMultiplePages\<close> returns, and its result has the length of the input and
  holds at each position the outcome of fetching the URL at that position of the input
  (\<open>outcome_of\<close>): a page, which the cache gave for this URL when the call began or which
  a request of this call fetched for this URL, or an error record that carries this URL
  and the failure that a request of this call met for this URL (the TypeError, when the
  URL cannot be printed). So a fetch that fails leaves its own record, and neither ends
  the call nor displaces or replaces the result of another URL; the call makes at most
  one request for each URL. \<open>cache_wf\<close> holds when the process starts and after every
  call of the program (\<open>cache_wf_empty\<close>, \<open>cache_wf_run_calls\<close>).
\<close>

theorem fetchMultiplePages_order:
  assumes "0 < maxConcurrent" and "cache_wf w"
  shows "\<exists>results w'. fetchMultiplePages us maxConcurrent w = Some (results, w')
           \<and> length results = length us \<and> map result_url results = us
           \<and> list_all2 (outcome_of w (gets w) (gets w')) us results
           \<and> gets w' \<le> gets w + length us"
proof -
  from assms(1) have "0 < nat maxConcurrent" by simp
  from fetch_loop_returns [OF this, of 0 us "[]" w]
  obtain results w' where r: "fetch_loop 0 (nat maxConcurrent) us [] w = Some (results, w')"
    by auto
  from fetch_loop_scrapes [OF r]
  have o: "list_all2 (outcome_of w (gets w) (gets w')) us results"
    and g: "gets w' \<le> gets w + length us"
    by auto
  from o have len: "length results = length us" by (simp add: list_all2_lengthD)
  have "map result_url results = us"
  proof (rule nth_equalityI)
    show "length (map result_url results) = length us" using len by simp
  next
    fix i assume "i < length (map result_url results)"
    with len have i: "i < length us" by simp
    from list_all2_nthD [OF o i] have "outcome_of w (gets w) (gets w') (us ! i) (results ! i)" .
    from outcome_of_url [OF assms(2) this] i len show "map result_url results ! i = us ! i"
      by simp
  qed
  with r o g len show ?thesis
    by (simp add: fetchMultiplePages_def)
qed

text \<open>
  A run in which the second of four URLs has no page and the fourth cannot be printed:
  the first and the third, which are in the batch of the second, keep their pages.
\<close>

lemma build_result_home: "build_result home_url home_doc now = home_page now"
  by (simp add: build_result_def home_doc_def home_page_def Let_def mainSelectors_def js_trim_def
      is_whitespace_def)

lemma fetchMultiplePages_patchy:
  "fetchMultiplePages [home_url, missing_url, home_url, unprintable_value] 3 patchy_world
   = Some ([Page (home_page ''2025-01-01T00:00:00.000Z''),
            Failed missing_url
              (FetchFailed missing_url (AxiosError ''Request failed with status code 404'')),
            Page (home_page ''2025-01-01T00:00:00.250Z''),
            Failed unprintable_value TypeError],
           patchy_world
             \<lparr>gets := 3,
              trace := [Get home_url, Get missing_url, Get home_url],
              cache := [home_url \<mapsto> home_page ''2025-01-01T00:00:00.250Z'']\<rparr>)"
  by (simp add: fetchMultiplePages_def fetch_loop.simps [of _ 3] fetch_batch_def fetch_begin_def
      fetch_end_def cache_get_def build_result_home [unfolded home_url_def] patchy_world_def
      serving_world_def quiet_world_def home_url_def missing_url_def unprintable_value_def
      Let_def)

theorem fetchMultiplePages_order_witness:
  "(0::int) < 3 \<and> cache_wf patchy_world
   \<and> (\<exists>results w'.
         fetchMultiplePages [home_url, missing_url, home_url, unprintable_value] 3 patchy_world
           = Some (results, w')
         \<and> results
           = [Page (home_page ''2025-01-01T00:00:00.000Z''),
              Failed missing_url
                (FetchFailed missing_url (AxiosError ''Request failed with status code 404'')),
              Page (home_page ''2025-01-01T00:00:00.250Z''),
              Failed unprintable_value TypeError]
         \<and> map result_url results = [home_url, missing_url, home_url, unprintable_value]
         \<and> list_all2 (outcome_of patchy_world (gets patchy_world) (gets w'))
              [home_url, missing_url, home_url, unprintable_value] results
         \<and> gets w' \<le> gets patchy_world + 4)"
proof -
  have p: "(0::int) < 3" by simp
  have wf: "cache_wf patchy_world"
    by (simp add: cache_wf_def patchy_world_def serving_world_def quiet_world_def)
  from fetchMultiplePages_order
         [OF p wf, of "[home_url, missing_url, home_url, unprintable_value]"]
  obtain results w' where r:
    "fetchMultiplePages [home_url, missing_url, home_url, unprintable_value] 3 patchy_world
       = Some (results, w')"
    "map result_url results = [home_url, missing_url, home_url, unprintable_value]"
    "list_all2 (outcome_of patchy_world (gets patchy_world) (gets w'))
       [home_url, missing_url, home_url, unprintable_value] results"
    "gets w' \<le> gets patchy_world + 4"
    by auto
  from r(1) have res: "results
           = [Page (home_page ''2025-01-01T00:00:00.000Z''),
              Failed missing_url
                (FetchFailed missing_url (AxiosError ''Request failed with status code 404'')),
              Page (home_page ''2025-01-01T00:00:00.250Z''),
              Failed unprintable_value TypeError]"
    by (simp add: fetchMultiplePages_patchy)
  show ?thesis
    by (intro conjI exI [of _ results] exI [of _ w']) (fact p wf r res)+
qed

section \<open>What the tools and the model call leave in place\<close>

lemma fetchMultiplePages_scrapes:
  "fetchMultiplePages us maxConcurrent w = Some (rs, w') \<Longrightarrow> scrapes w w'"
  using fetch_loop_scrapes [of 0 "nat maxConcurrent" us "[]" w rs w']
  by (auto simp: fetchMultiplePages_def)

lemma fetchMultiplePages_quietly:
  "fetchMultiplePages us maxConcurrent w = Some (rs, w') \<Longrightarrow> quietly w w'"
  by (rule scrapes_quietly) (rule fetchMultiplePages_scrapes)

lemma tool_body_scrapes:
  assumes "tool_body toolName args w = Some (r, w')"
  shows "scrapes w w'"
proof -
  consider (search) "toolName = JStr ''search_website_urls''"
    | (fetch) "toolName = JStr ''fetch_webpage_content''"
    | (other) "toolName \<noteq> JStr ''search_website_urls''" "toolName \<noteq> JStr ''fetch_webpage_content''"
    by blast
  then show ?thesis
  proof cases
    case search
    show ?thesis
    proof (cases "get_prop args ''query''")
      case (Inl e)
      with assms search show ?thesis by (simp add: tool_body_def)
    next
      case q: (Inr query)
      show ?thesis
      proof (cases "get_prop args ''limit''")
        case (Inl e)
        with assms search q show ?thesis by (simp add: tool_body_def)
      next
        case (Inr l)
        with assms search q show ?thesis
          by (cases query; cases "to_integer w (if truthy l then l else JNum 5)")
             (auto simp: tool_body_def Let_def)
      qed
    qed
  next
    case fetch
    show ?thesis
    proof (cases "get_prop args ''urls''")
      case (Inl e)
      with assms fetch show ?thesis by (simp add: tool_body_def)
    next
      case (Inr us)
      show ?thesis
      proof (cases us)
        case (JArr xs)
        with assms fetch Inr show ?thesis
          by (auto simp: tool_body_def Let_def split: option.splits
                dest: fetchMultiplePages_scrapes)
      qed (use assms fetch Inr in \<open>auto simp: tool_body_def split: if_splits\<close>)
    qed
  next
    case other
    with assms show ?thesis by (simp add: tool_body_def)
  qed
qed

lemma fetchMultiplePages_returns:
  "0 < maxConcurrent \<Longrightarrow> \<exists>r. fetchMultiplePages us maxConcurrent w = Some r"
  using fetch_loop_returns [of "nat maxConcurrent" 0 us "[]" w]
  by (simp add: fetchMultiplePages_def)

lemma tool_body_returns: "\<exists>r. tool_body toolName args w = Some r"
proof -
  consider (search) "toolName = JStr ''search_website_urls''"
    | (fetch) "toolName = JStr ''fetch_webpage_content''"
    | (other) "toolName \<noteq> JStr ''search_website_urls''" "toolName \<noteq> JStr ''fetch_webpage_content''"
    by blast
  then show ?thesis
  proof cases
    case search
    show ?thesis
    proof (cases "get_prop args ''query''")
      case (Inl e)
      with search show ?thesis by (simp add: tool_body_def)
    next
      case q: (Inr query)
      show ?thesis
      proof (cases "get_prop args ''limit''")
        case (Inl e)
        with search q show ?thesis by (simp add: tool_body_def)
      next
        case (Inr l)
        with search q show ?thesis
          by (cases query; cases "to_integer w (if truthy l then l else JNum 5)")
             (simp_all add: tool_body_def Let_def)
      qed
    qed
  next
    case fetch
    show ?thesis
    proof (cases "get_prop args ''urls''")
      case (Inl e)
      with fetch show ?thesis by (simp add: tool_body_def)
    next
      case (Inr us)
      show ?thesis
      proof (cases us)
        case (JArr xs)
        obtain r where "fetchMultiplePages (take 3 xs) 3 w = Some r"
          using fetchMultiplePages_returns [of 3 "take 3 xs" w] by auto
        with fetch Inr JArr show ?thesis
          by (cases r) (simp add: tool_body_def Let_def)
      qed (use fetch Inr in \<open>simp_all add: tool_body_def\<close>)
    qed
  next
    case other
    then show ?thesis by (simp add: tool_body_def)
  qed
qed

text \<open>
  \<^verbatim>\<open>executeToolCall\<close> raises for a name that cannot be printed, and only then; for
  every other name it returns the result of the block, or the payload of its exception.
\<close>

lemma executeToolCall_unprintable:
  "unprintable toolName \<Longrightarrow> executeToolCall toolName args w = Some (Inl TypeError, w)"
  by (simp add: executeToolCall_def)

lemma executeToolCall_body:
  "executeToolCall toolName args w = Some (r, w') \<Longrightarrow> \<not> unprintable toolName \<Longrightarrow>
   \<exists>r0. tool_body toolName args w = Some (r0, w')
         \<and> r = (case r0 of Inl e \<Rightarrow> Inr (ErrorPayload e) | Inr results \<Rightarrow> Inr results)"
  by (auto simp: executeToolCall_def split: option.splits sum.splits prod.splits)

lemma executeToolCall_scrapes:
  assumes "executeToolCall toolName args w = Some (r, w')"
  shows "scrapes w w'"
proof (cases "unprintable toolName")
  case True
  with assms show ?thesis by (simp add: executeToolCall_def)
next
  case False
  from executeToolCall_body [OF assms False] tool_body_scrapes show ?thesis by blast
qed

lemma executeToolCall_returns:
  "\<exists>r w'. executeToolCall toolName args w = Some (r, w')
          \<and> (\<not> unprintable toolName \<longrightarrow> \<not> isl r)"
proof (cases "unprintable toolName")
  case True
  then show ?thesis by (simp add: executeToolCall_def)
next
  case False
  obtain r0 w' where "tool_body toolName args w = Some (r0, w')"
    using tool_body_returns [of toolName args w] by auto
  with False show ?thesis
    by (cases r0) (simp_all add: executeToolCall_def)
qed

lemma run_tool_calls_scrapes:
  "run_tool_calls calls messages w = Some (r, w') \<Longrightarrow> scrapes w w'"
proof (induction calls arbitrary: messages w)
  case Nil
  then show ?case by simp
next
  case (Cons toolCall rest)
  show ?case
  proof (cases "get_prop toolCall ''function''")
    case (Inl e)
    with Cons.prems show ?thesis by simp
  next
    case f: (Inr f)
    show ?thesis
    proof (cases "get_prop f ''name''")
      case (Inl e)
      with Cons.prems f show ?thesis by simp
    next
      case n: (Inr toolName)
      show ?thesis
      proof (cases "get_prop f ''arguments''")
        case (Inl e)
        with Cons.prems f n show ?thesis by simp
      next
        case a: (Inr arguments)
        show ?thesis
        proof (cases "unprintable arguments")
          case True
          with Cons.prems f n a show ?thesis by simp
        next
          case pr: False
          show ?thesis
          proof (cases "JSON_parse w arguments")
            case None
            with Cons.prems f n a pr show ?thesis by simp
          next
            case p: (Some toolArgs)
            show ?thesis
            proof (cases "executeToolCall toolName toolArgs w")
              case None
              with Cons.prems f n a pr p show ?thesis by simp
            next
              case (Some rw)
              obtain res w1 where rw: "rw = (res, w1)" by (cases rw)
              from Some rw have q1: "scrapes w w1" by (auto dest: executeToolCall_scrapes)
              show ?thesis
              proof (cases res)
                case (Inl e)
                with Cons.prems f n a pr p Some rw q1 show ?thesis by simp
              next
                case r: (Inr toolResult)
                show ?thesis
                proof (cases "get_prop toolCall ''id''")
                  case (Inl e)
                  with Cons.prems f n a pr p Some rw r q1 show ?thesis by simp
                next
                  case (Inr tool_call_id)
                  with Cons.prems f n a pr p Some rw r
                  have "run_tool_calls rest
                          (messages @ [ToolMsg tool_call_id toolName toolResult]) w1
                        = Some (r, w')" by simp
                  from Cons.IH [OF this] q1 show ?thesis by (rule scrapes_trans [rotated])
                qed
              qed
            qed
          qed
        qed
      qed
    qed
  qed
qed

lemma run_tool_calls_quietly:
  "run_tool_calls calls messages w = Some (r, w') \<Longrightarrow> quietly w w'"
  by (rule scrapes_quietly) (rule run_tool_calls_scrapes)

lemma run_tool_calls_returns: "\<exists>r. run_tool_calls calls messages w = Some r"
proof (induction calls arbitrary: messages w)
  case Nil
  then show ?case by simp
next
  case (Cons toolCall rest)
  show ?case
  proof (cases "get_prop toolCall ''function''")
    case (Inl e)
    then show ?thesis by simp
  next
    case f: (Inr f)
    show ?thesis
    proof (cases "get_prop f ''name''")
      case (Inl e)
      with f show ?thesis by simp
    next
      case n: (Inr toolName)
      show ?thesis
      proof (cases "get_prop f ''arguments''")
        case (Inl e)
        with f n show ?thesis by simp
      next
        case a: (Inr arguments)
        show ?thesis
        proof (cases "unprintable arguments")
          case True
          with f n a show ?thesis by simp
        next
          case pr: False
          show ?thesis
          proof (cases "JSON_parse w arguments")
            case None
            with f n a pr show ?thesis by simp
          next
            case p: (Some toolArgs)
            from executeToolCall_returns [of toolName toolArgs w] obtain res w1 where
              e: "executeToolCall toolName toolArgs w = Some (res, w1)" by auto
            show ?thesis
            proof (cases res)
              case (Inl e')
              with f n a pr p e show ?thesis by simp
            next
              case r: (Inr toolResult)
              show ?thesis
              proof (cases "get_prop toolCall ''id''")
                case (Inl e')
                with f n a pr p e r show ?thesis by simp
              next
                case (Inr tool_call_id)
                with f n a pr p e r
                  Cons.IH [of "messages @ [ToolMsg tool_call_id toolName toolResult]" w1]
                show ?thesis by simp
              qed
            qed
          qed
        qed
      qed
    qed
  qed
qed

text \<open>
  The model call changes the count of its requests and the trace only. With its 3
  retries it makes from one to three requests, and three when it raises.
\<close>

lemma callOpenRouterAPI_loop_quietly:
  "callOpenRouterAPI_loop attempt retries messages w = (r, w') \<Longrightarrow>
   quietly w w' \<and> cache w' = cache w \<and> gets w' = gets w
   \<and> (attempt \<le> retries \<longrightarrow>
        posts w < posts w' \<and> posts w' + attempt \<le> posts w + retries + 1
        \<and> (isl r \<longrightarrow> posts w' + attempt = posts w + retries + 1))"
proof (induction attempt retries messages w rule: callOpenRouterAPI_loop.induct)
  case (1 attempt retries messages w)
  let ?w1 = "w\<lparr>posts := posts w + 1, trace := trace w @ [Post messages]\<rparr>"
  have q1: "quietly w ?w1" by (rule quietly_same_cache) simp_all
  show ?case
  proof (cases "attempt \<le> retries")
    case False
    with "1.prems" show ?thesis by (simp add: callOpenRouterAPI_loop.simps)
  next
    case True
    show ?thesis
    proof (cases "attempt_outcome (net_post w (posts w))")
      case (Inr body)
      from loop_done [OF True Inr, of messages] "1.prems"
      have "r = Inr body" "w' = ?w1" by simp_all
      with q1 True show ?thesis by simp
    next
      case (Inl e)
      show ?thesis
      proof (cases "attempt = retries")
        case last: True
        from loop_last [OF Inl, of retries messages] "1.prems" last
        have "r = Inl e" "w' = ?w1" by simp_all
        with q1 last show ?thesis by simp
      next
        case more: False
        let ?w2 = "?w1\<lparr>trace := trace ?w1 @ [Wait (waitTime attempt)]\<rparr>"
        have q2: "quietly w ?w2" by (rule quietly_same_cache) simp_all
        from True more have lt: "attempt < retries" by simp
        from loop_retry [OF lt Inl, of messages] "1.prems"
        have rec: "callOpenRouterAPI_loop (attempt + 1) retries messages ?w2 = (r, w')"
          by simp
        have call: "attempt_call messages w = (Inl e, ?w1)"
          by (simp add: attempt_call_eq Inl)
        from "1.IH" [OF True call [symmetric] refl more rec] lt
        have ih: "quietly ?w2 w'" "cache w' = cache ?w2" "gets w' = gets ?w2"
          "posts ?w2 < posts w'" "posts w' + (attempt + 1) \<le> posts ?w2 + retries + 1"
          "isl r \<Longrightarrow> posts w' + (attempt + 1) = posts ?w2 + retries + 1"
          by simp_all
        have "quietly w w'" using q2 ih(1) by (rule quietly_trans)
        moreover have "posts w < posts w'" using ih(4) by simp
        moreover have "posts w' + attempt \<le> posts w + retries + 1" using ih(5) by simp
        moreover have "isl r \<longrightarrow> posts w' + attempt = posts w + retries + 1"
          using ih(6) by simp
        ultimately show ?thesis using ih(2,3) by simp
      qed
    qed
  qed
qed

lemma callOpenRouterAPI_quietly:
  "callOpenRouterAPI messages retries w = (r, w') \<Longrightarrow> quietly w w'"
  by (simp add: callOpenRouterAPI_def callOpenRouterAPI_loop_quietly)

lemma callOpenRouterAPI_posts:
  assumes "callOpenRouterAPI messages 3 w = (r, w')"
  shows "posts w + 1 \<le> posts w'" and "posts w' \<le> posts w + 3"
    and "isl r \<Longrightarrow> posts w' = posts w + 3"
  using callOpenRouterAPI_loop_quietly [of 1 3 messages w r w'] assms
  by (simp_all add: callOpenRouterAPI_def)

lemma advances_history [simp]: "advances w (w\<lparr>conversationHistory := h\<rparr>)"
  using cache_get_cong [of "w\<lparr>conversationHistory := h\<rparr>" w]
  by (simp add: advances_def)

lemma quietly_advances: "quietly w w' \<Longrightarrow> advances w w'"
  by (simp add: quietly_def)

lemma chat_try_fail:
  "callOpenRouterAPI messages 3 w = (Inl e, w1) \<Longrightarrow>
   chat_try messages userMessage w = Some (Inl e, w1)"
  by (simp add: chat_try_def)

text \<open>
  What a pass through the \<^verbatim>\<open>try\<close> block does after its model call: it makes no
  request to the model, and it changes the history only when it returns the final
  answer.
\<close>

lemma chat_try_after_call:
  assumes "chat_try messages userMessage w = Some (res, w')"
    and c: "callOpenRouterAPI messages 3 w = (r0, w1)"
  shows "advances w1 w'" and "posts w' = posts w1"
    and "\<forall>answer. res \<noteq> Inr (Return answer) \<Longrightarrow> quietly w1 w'"
proof -
  have "advances w1 w' \<and> posts w' = posts w1
        \<and> ((\<forall>answer. res \<noteq> Inr (Return answer)) \<longrightarrow> quietly w1 w')"
  proof (cases r0)
    case (Inl e)
    with assms c show ?thesis by (simp add: chat_try_def)
  next
    case rd: (Inr responseData)
    show ?thesis
    proof (cases "get_prop responseData ''choices''")
      case (Inl e)
      with assms c rd show ?thesis by (simp add: chat_try_def)
    next
      case ch: (Inr choices)
      show ?thesis
      proof (cases "get_first choices")
        case (Inl e)
        with assms c rd ch show ?thesis by (simp add: chat_try_def)
      next
        case c0: (Inr choice)
        show ?thesis
        proof (cases "get_prop choice ''message''")
          case (Inl e)
          with assms c rd ch c0 show ?thesis by (simp add: chat_try_def)
        next
          case am: (Inr assistantMessage)
          show ?thesis
          proof (cases "get_prop assistantMessage ''tool_calls''")
            case (Inl e)
            with assms c rd ch c0 am show ?thesis
              by (simp add: chat_try_def)
          next
            case tc: (Inr tool_calls)
            show ?thesis
            proof (cases "wants_tools w1 tool_calls")
              case (Inl e)
              with assms c rd ch c0 am tc show ?thesis
                by (simp add: chat_try_def)
            next
              case wt: (Inr tools)
              show ?thesis
              proof (cases tools)
                case True
                show ?thesis
                proof (cases "iterate tool_calls")
                  case (Inl e)
                  with assms c rd ch c0 am tc wt True show ?thesis
                    by (simp add: chat_try_def)
                next
                  case it: (Inr calls)
                  let ?run =
                    "run_tool_calls calls (messages @ [AssistantRaw assistantMessage]) w1"
                  show ?thesis
                  proof (cases ?run)
                    case None
                    with assms c rd ch c0 am tc wt True it show ?thesis
                      by (simp add: chat_try_def)
                  next
                    case (Some rw)
                    obtain r2 w2 where rw: "rw = (r2, w2)" by (cases rw)
                    from Some rw have s: "scrapes w1 w2" by (auto dest: run_tool_calls_scrapes)
                    from assms c rd ch c0 am tc wt True it Some rw have "w' = w2"
                      by (cases r2) (simp_all add: chat_try_def)
                    with s scrapes_quietly [OF s] show ?thesis
                      by (simp add: quietly_advances scrapes_def)
                  qed
                qed
              next
                case False
                show ?thesis
                proof (cases "get_prop assistantMessage ''content''")
                  case (Inl e)
                  with assms c rd ch c0 am tc wt False show ?thesis
                    by (simp add: chat_try_def)
                next
                  case fr: (Inr finalResponse)
                  show ?thesis
                  proof (cases "unprintable finalResponse")
                    case True
                    with assms c rd ch c0 am tc wt False fr show ?thesis
                      by (simp add: chat_try_def)
                  next
                    case pr: False
                    with assms c rd ch c0 am tc wt False fr
                    have w': "w' = w1\<lparr>conversationHistory :=
                               trim_history (conversationHistory w1 @
                                 [UserMsg userMessage, AssistantMsg finalResponse])\<rparr>"
                      and res: "res = Inr (Return finalResponse)"
                      by (simp_all add: chat_try_def)
                    have "advances w1 w'" by (simp add: w')
                    with res w' show ?thesis by simp
                  qed
                qed
              qed
            qed
          qed
        qed
      qed
    qed
  qed
  then show "advances w1 w'" and "posts w' = posts w1"
    and "\<forall>answer. res \<noteq> Inr (Return answer) \<Longrightarrow> quietly w1 w'"
    by simp_all
qed

lemma chat_try_advances:
  assumes "chat_try messages userMessage w = Some (res, w')"
  shows "advances w w'"
    and "\<forall>answer. res \<noteq> Inr (Return answer) \<Longrightarrow> quietly w w'"
    and "posts w + 1 \<le> posts w'" and "posts w' \<le> posts w + 3"
proof -
  obtain r0 w1 where c: "callOpenRouterAPI messages 3 w = (r0, w1)"
    by (cases "callOpenRouterAPI messages 3 w")
  from callOpenRouterAPI_quietly [OF c] have q1: "quietly w w1" .
  note after = chat_try_after_call [OF assms c]
  show "advances w w'"
    using quietly_advances [OF q1] after(1) by (rule advances_trans)
  show "quietly w w'" if "\<forall>answer. res \<noteq> Inr (Return answer)"
    using q1 after(3) [OF that] by (rule quietly_trans)
  show "posts w + 1 \<le> posts w'" and "posts w' \<le> posts w + 3"
    using callOpenRouterAPI_posts [OF c] after(2) by simp_all
qed

lemma chat_try_returns: "\<exists>r. chat_try messages userMessage w = Some r"
proof -
  obtain r0 w1 where c: "callOpenRouterAPI messages 3 w = (r0, w1)"
    by (cases "callOpenRouterAPI messages 3 w")
  show ?thesis
  proof (cases r0)
    case (Inl e)
    with c show ?thesis by (simp add: chat_try_def)
  next
    case rd: (Inr responseData)
    show ?thesis
    proof (cases "get_prop responseData ''choices''")
      case (Inl e)
      with c rd show ?thesis by (simp add: chat_try_def)
    next
      case ch: (Inr choices)
      show ?thesis
      proof (cases "get_first choices")
        case (Inl e)
        with c rd ch show ?thesis by (simp add: chat_try_def)
      next
        case c0: (Inr choice)
        show ?thesis
        proof (cases "get_prop choice ''message''")
          case (Inl e)
          with c rd ch c0 show ?thesis by (simp add: chat_try_def)
        next
          case am: (Inr assistantMessage)
          show ?thesis
          proof (cases "get_prop assistantMessage ''tool_calls''")
            case (Inl e)
            with c rd ch c0 am show ?thesis by (simp add: chat_try_def)
          next
            case tc: (Inr tool_calls)
            show ?thesis
            proof (cases "wants_tools w1 tool_calls")
              case (Inl e)
              with c rd ch c0 am tc show ?thesis by (simp add: chat_try_def)
            next
              case wt: (Inr tools)
              show ?thesis
              proof (cases tools)
                case True
                show ?thesis
                proof (cases "iterate tool_calls")
                  case (Inl e)
                  with c rd ch c0 am tc wt True show ?thesis by (simp add: chat_try_def)
                next
                  case it: (Inr calls)
                  obtain r2 w2 where
                    "run_tool_calls calls (messages @ [AssistantRaw assistantMessage]) w1
                     = Some (r2, w2)"
                    using run_tool_calls_returns
                      [of calls "messages @ [AssistantRaw assistantMessage]" w1]
                    by auto
                  with c rd ch c0 am tc wt True it show ?thesis
                    by (cases r2) (simp_all add: chat_try_def)
                qed
              next
                case False
                with c rd ch c0 am tc wt show ?thesis
                  by (cases "get_prop assistantMessage ''content''")
                     (auto simp: chat_try_def)
              qed
            qed
          qed
        qed
      qed
    qed
  qed
qed

section \<open>The conversation loop\<close>

lemma chat_iteration_returns: "\<exists>s w'. chat_iteration messages userMessage w = Some (s, w')"
proof -
  obtain r w' where "chat_try messages userMessage w = Some (r, w')"
    using chat_try_returns [of messages userMessage w] by auto
  then show ?thesis by (cases r) (simp_all add: chat_iteration_def)
qed

lemma chat_iteration_try:
  "chat_iteration messages userMessage w = Some (s, w') \<Longrightarrow>
   \<exists>r. chat_try messages userMessage w = Some (r, w')
       \<and> s = (case r of Inl e \<Rightarrow> Return (JStr errorMessage) | Inr s0 \<Rightarrow> s0)"
  by (auto simp: chat_iteration_def split: option.splits sum.splits prod.splits)

lemma chat_iteration_advances:
  "chat_iteration messages userMessage w = Some (s, w') \<Longrightarrow> advances w w'"
  using chat_iteration_try chat_try_advances(1) by blast

lemma chat_iteration_continue:
  assumes "chat_iteration messages userMessage w = Some (Continue messages1, w')"
  shows "quietly w w'" and "posts w + 1 \<le> posts w'" and "posts w' \<le> posts w + 3"
proof -
  from chat_iteration_try [OF assms] obtain r where
    r: "chat_try messages userMessage w = Some (r, w')"
    and s: "Continue messages1 = (case r of Inl e \<Rightarrow> Return (JStr errorMessage) | Inr s0 \<Rightarrow> s0)"
    by auto
  from s have "\<forall>answer. r \<noteq> Inr (Return answer)" by (cases r) auto
  with chat_try_advances(2) [OF r] show "quietly w w'" by simp
  from chat_try_advances(3,4) [OF r] show "posts w + 1 \<le> posts w'" "posts w' \<le> posts w + 3" .
qed

lemma chat_iteration_model_failure:
  assumes "isl (fst (callOpenRouterAPI messages 3 w))"
  shows "\<exists>w'. chat_iteration messages userMessage w = Some (Return (JStr errorMessage), w')
              \<and> quietly w w' \<and> posts w' = posts w + 3"
proof -
  from assms obtain e w1 where c: "callOpenRouterAPI messages 3 w = (Inl e, w1)"
    by (cases "callOpenRouterAPI messages 3 w") (auto simp: isl_def)
  from chat_try_fail [OF c] have "chat_iteration messages userMessage w
                                  = Some (Return (JStr errorMessage), w1)"
    by (simp add: chat_iteration_def)
  with callOpenRouterAPI_quietly [OF c] callOpenRouterAPI_posts(3) [OF c] show ?thesis by simp
qed

text \<open>
  Three requests in a row that meet a failure the code recognises make the model call
  fail with its retries exhausted.
\<close>

lemma model_fails_after_failures:
  assumes "\<forall>k<3. recognised_failure (net_post w (posts w + k))"
  shows "model_fails_after 0 messages userMessage w"
  using callOpenRouterAPI_three_failures [OF assms, of messages] by simp

lemma chat_loop_advances:
  "chat_loop currentIteration messages userMessage w = Some (answer, w') \<Longrightarrow> advances w w'"
proof (induction currentIteration messages userMessage w rule: chat_loop.induct)
  case (1 currentIteration messages userMessage w)
  show ?case
  proof (cases "currentIteration < maxIterations")
    case False
    with "1.prems" show ?thesis by (simp add: chat_loop.simps)
  next
    case True
    obtain s w1 where it: "chat_iteration messages userMessage w = Some (s, w1)"
      using chat_iteration_returns [of messages userMessage w] by auto
    note a1 = chat_iteration_advances [OF it]
    show ?thesis
    proof (cases s)
      case (Continue messages1)
      with "1.prems" True it
      have "chat_loop (currentIteration + 1) messages1 userMessage w1 = Some (answer, w')"
        by (simp add: chat_loop.simps [of currentIteration])
      from "1.IH" [OF True it refl _ this] Continue a1 show ?thesis
        by (auto intro: advances_trans)
    next
      case (Return a)
      with "1.prems" True it have "w' = w1"
        by (simp add: chat_loop.simps [of currentIteration])
      with a1 show ?thesis by simp
    qed
  qed
qed

lemma chat_loop_returns:
  "\<exists>r. chat_loop currentIteration messages userMessage w = Some r"
proof (induction currentIteration messages userMessage w rule: chat_loop.induct)
  case (1 currentIteration messages userMessage w)
  show ?case
  proof (cases "currentIteration < maxIterations")
    case False
    then show ?thesis by (simp add: chat_loop.simps)
  next
    case True
    obtain s w1 where it: "chat_iteration messages userMessage w = Some (s, w1)"
      using chat_iteration_returns [of messages userMessage w] by auto
    show ?thesis
    proof (cases s)
      case (Continue messages1)
      from "1.IH" [OF True it refl _ ] Continue True it show ?thesis
        by (simp add: chat_loop.simps [of currentIteration])
    next
      case (Return a)
      with True it show ?thesis by (simp add: chat_loop.simps [of currentIteration])
    qed
  qed
qed

lemma model_fails_after_Suc:
  assumes "model_fails_after (Suc n) messages userMessage w"
  shows "\<exists>messages1 w1. chat_iteration messages userMessage w = Some (Continue messages1, w1)
           \<and> model_fails_after n messages1 userMessage w1"
proof -
  obtain s w1 where it: "chat_iteration messages userMessage w = Some (s, w1)"
    using chat_iteration_returns [of messages userMessage w] by auto
  with assms show ?thesis by (cases s) simp_all
qed


text \<open>
  The loop, entered with \<open>i\<close> passes made: after \<open>n\<close> rounds of tool calls and a failing
  model call it returns the message of the \<^verbatim>\<open>catch\<close>; after as many rounds as the
  loop has passes left it returns the message of the ceiling. Each round makes from one
  to three requests to the model, the failing call makes three.
\<close>

lemma chat_loop_model_failure:
  "model_fails_after n messages userMessage w \<Longrightarrow> i + n < maxIterations \<Longrightarrow>
   \<exists>w'. chat_loop i messages userMessage w = Some (JStr errorMessage, w') \<and> quietly w w'
        \<and> posts w + n + 3 \<le> posts w' \<and> posts w' \<le> posts w + 3 * n + 3"
proof (induction n arbitrary: i messages w)
  case 0
  then have "isl (fst (callOpenRouterAPI messages 3 w))" by simp
  from chat_iteration_model_failure [OF this, of userMessage] 0 show ?case
    by (auto simp: chat_loop.simps [of i])
next
  case (Suc n)
  from model_fails_after_Suc [OF Suc.prems(1)] obtain messages1 w1 where
    it: "chat_iteration messages userMessage w = Some (Continue messages1, w1)"
    and rest: "model_fails_after n messages1 userMessage w1"
    by auto
  from Suc.prems(2) have "Suc i + n < maxIterations" by simp
  from Suc.IH [OF rest this] obtain w' where
    l: "chat_loop (Suc i) messages1 userMessage w1 = Some (JStr errorMessage, w')"
    and q: "quietly w1 w'"
    and p: "posts w1 + n + 3 \<le> posts w'" "posts w' \<le> posts w1 + 3 * n + 3" by auto
  note c = chat_iteration_continue [OF it]
  from Suc.prems(2) it l have "chat_loop i messages userMessage w = Some (JStr errorMessage, w')"
    by (simp add: chat_loop.simps [of i])
  moreover from c(1) q have "quietly w w'" by (rule quietly_trans)
  moreover from c(2,3) p
  have "posts w + Suc n + 3 \<le> posts w'" "posts w' \<le> posts w + 3 * Suc n + 3" by simp_all
  ultimately show ?case by simp
qed


text \<open>
  A turn whose user message cannot be printed raises before its loop: it makes no
  request and changes nothing. Every other turn is its loop.
\<close>

lemma chat_unprintable:
  "unprintable userMessage \<Longrightarrow> chat userMessage systemPrompt w = Some (Inl TypeError, w)"
  by (simp add: chat_def)

lemma chat_printable:
  "\<not> unprintable userMessage \<Longrightarrow>
   chat_loop 0 (initial_messages userMessage systemPrompt w) userMessage w = Some (answer, w')
   \<Longrightarrow> chat userMessage systemPrompt w = Some (Inr answer, w')"
  by (simp add: chat_def)

subsection \<open>Rounds of tool calls\<close>

lemma get_prop_defined:
  "get_prop v k = Inr x \<Longrightarrow> \<exists>y. get_prop v k' = Inr y"
  by (cases v) simp_all

lemma well_formed_call_quietly:
  "quietly w w' \<Longrightarrow> well_formed_call w' c = well_formed_call w c"
  by (auto simp: well_formed_call_def quietly_def advances_def split: sum.splits)

lemma run_tool_calls_well_formed:
  "\<forall>c \<in> set calls. well_formed_call w c \<Longrightarrow>
   \<exists>messages1 w'. run_tool_calls calls messages w = Some (Inr messages1, w')"
proof (induction calls arbitrary: messages w)
  case Nil
  then show ?case by simp
next
  case (Cons toolCall rest)
  from Cons.prems have wf: "well_formed_call w toolCall" by simp
  then obtain f where f: "get_prop toolCall ''function'' = Inr f"
    by (cases "get_prop toolCall ''function''") (simp_all add: well_formed_call_def)
  with wf obtain toolName where n: "get_prop f ''name'' = Inr toolName"
    by (cases "get_prop f ''name''") (simp_all add: well_formed_call_def)
  with wf f have pn: "\<not> unprintable toolName" by (simp add: well_formed_call_def)
  from wf f n obtain arguments where a: "get_prop f ''arguments'' = Inr arguments"
    by (cases "get_prop f ''arguments''") (simp_all add: well_formed_call_def)
  with wf f n have pa: "\<not> unprintable arguments" by (simp add: well_formed_call_def)
  from wf f n a obtain toolArgs where p: "JSON_parse w arguments = Some toolArgs"
    by (auto simp: well_formed_call_def)
  from get_prop_defined [OF f] obtain tool_call_id where
    i: "get_prop toolCall ''id'' = Inr tool_call_id" by auto
  obtain toolResult w1 where
    e: "executeToolCall toolName toolArgs w = Some (Inr toolResult, w1)"
    using executeToolCall_returns [of toolName toolArgs w] pn
    by (metis sum.collapse(2))
  from scrapes_quietly [OF executeToolCall_scrapes [OF e]] Cons.prems
  have "\<forall>c \<in> set rest. well_formed_call w1 c"
    by (simp add: well_formed_call_quietly)
  from Cons.IH [OF this, of "messages @ [ToolMsg tool_call_id toolName toolResult]"]
  show ?case by (simp add: f n a pa p e i)
qed

text \<open>
  A pass whose model call succeeds with a response that carries an array of tool calls,
  not empty and each well formed, is a round of tool calls.
\<close>

lemma chat_iteration_tool_round:
  assumes "callOpenRouterAPI messages 3 w = (Inr responseData, w1)"
    and "response_tool_calls responseData = Some calls"
    and "calls \<noteq> []"
    and "\<forall>c \<in> set calls. well_formed_call w c"
  shows "\<exists>messages1 w'. chat_iteration messages userMessage w = Some (Continue messages1, w')"
proof -
  from assms(2) obtain choices choice assistantMessage where
    r: "get_prop responseData ''choices'' = Inr choices" "get_first choices = Inr choice"
       "get_prop choice ''message'' = Inr assistantMessage"
       "get_prop assistantMessage ''tool_calls'' = Inr (JArr calls)"
    by (auto simp: response_tool_calls_def split: sum.splits json.splits)
  from callOpenRouterAPI_quietly [OF assms(1)] assms(4)
  have "\<forall>c \<in> set calls. well_formed_call w1 c"
    by (simp add: well_formed_call_quietly)
  from run_tool_calls_well_formed [OF this, of "messages @ [AssistantRaw assistantMessage]"]
  obtain messages1 w' where
    "run_tool_calls calls (messages @ [AssistantRaw assistantMessage]) w1
     = Some (Inr messages1, w')" by auto
  with assms(1,3) r show ?thesis
    by (simp add: chat_iteration_def chat_try_def wants_tools_def greater_than_zero_def
        to_number_def)
qed

text \<open>
  For every name that can be printed, and so for every name that is a string,
  \<^verbatim>\<open>executeToolCall\<close> returns and does not raise: for a name that is not one of the
  two tools the result is the payload of the "Unknown tool" exception, and whenever its
  \<^verbatim>\<open>try\<close> block raises an exception the result is the payload of that exception.
\<close>

lemma executeToolCall_payload:
  assumes "\<not> unprintable toolName"
  shows "\<exists>r w'. executeToolCall toolName args w = Some (Inr r, w')
     \<and> (toolName \<noteq> JStr ''search_website_urls'' \<and> toolName \<noteq> JStr ''fetch_webpage_content''
          \<longrightarrow> r = ErrorPayload (UnknownTool toolName))
     \<and> (\<forall>e w1. tool_body toolName args w = Some (Inl e, w1) \<longrightarrow> r = ErrorPayload e \<and> w' = w1)"
proof -
  obtain r0 w' where b: "tool_body toolName args w = Some (r0, w')"
    using tool_body_returns [of toolName args w] by auto
  have unknown: "r0 = Inl (UnknownTool toolName)"
    if "toolName \<noteq> JStr ''search_website_urls''" "toolName \<noteq> JStr ''fetch_webpage_content''"
    using that b by (simp add: tool_body_def)
  show ?thesis
  proof (cases r0)
    case (Inl e)
    with b assms have "executeToolCall toolName args w = Some (Inr (ErrorPayload e), w')"
      by (simp add: executeToolCall_def)
    with b Inl unknown show ?thesis by auto
  next
    case (Inr results)
    with b assms have "executeToolCall toolName args w = Some (Inr results, w')"
      by (simp add: executeToolCall_def)
    with b Inr unknown show ?thesis by auto
  qed
qed

subsection \<open>The ends of a chat turn\<close>

text \<open>
  Claim C2. In a chat turn where, after any number \<open>n < 10\<close> of rounds of tool calls,
  the model call fails with its retries exhausted, \<^verbatim>\<open>chat\<close> does not raise: it
  returns the fixed "trouble processing" message, and the stored history is what it was
  before the turn. The turn has made three requests for the failing call and from one to
  three for each round before it. A turn comes to a model call only when its user message
  can be printed, which is the first hypothesis: otherwise line 176 raises before the loop
  (\<open>chat_unprintable\<close>), and no model call is made that could fail.
\<close>

theorem chat_model_failure:
  assumes "\<not> unprintable userMessage"
    and "n < 10"
    and "model_fails_after n (initial_messages userMessage systemPrompt w) userMessage w"
  shows "\<exists>w'. chat userMessage systemPrompt w = Some (Inr (JStr errorMessage), w')
              \<and> conversationHistory w' = conversationHistory w
              \<and> posts w + n + 3 \<le> posts w' \<and> posts w' \<le> posts w + 3 * n + 3"
proof -
  from assms(2) have "0 + n < maxIterations" by (simp add: maxIterations_def)
  from chat_loop_model_failure [OF assms(3) this] obtain w' where
    l: "chat_loop 0 (initial_messages userMessage systemPrompt w) userMessage w
        = Some (JStr errorMessage, w')"
    and q: "quietly w w'"
    and p: "posts w + n + 3 \<le> posts w'" "posts w' \<le> posts w + 3 * n + 3"
    by auto
  from chat_printable [OF assms(1) l] q p show ?thesis
    by (auto simp: quietly_def)
qed


subsection \<open>Runs in the example environments\<close>

lemma attempt_outcome_tool_request [simp]:
  "attempt_outcome (Response 200 tool_request) = Inr tool_request"
  by (simp add: attempt_outcome_def check_response_def tool_request_def)

lemma attempt_outcome_shapeless [simp]:
  "attempt_outcome (Response 200 shapeless_data) = Inr shapeless_data"
  by (simp add: attempt_outcome_def check_response_def shapeless_data_def)

lemma callOpenRouterAPI_first:
  "attempt_outcome (net_post w (posts w)) = Inr body \<Longrightarrow>
   callOpenRouterAPI messages 3 w =
     (Inr body, w\<lparr>posts := posts w + 1, trace := trace w @ [Post messages]\<rparr>)"
  by (simp add: callOpenRouterAPI_def loop_done)

lemma attempt_outcome_contentless [simp]:
  "attempt_outcome (Response 200 contentless_data) = Inr contentless_data"
  by (simp add: attempt_outcome_def check_response_def contentless_data_def)

text \<open>
  Claim C9, at the response \<^verbatim>\<open>{"choices": [{}]}\<close> of status 200, whose
  \<^verbatim>\<open>choices[0]\<close> has no \<^verbatim>\<open>message\<close>: \<^verbatim>\<open>callOpenRouterAPI\<close> returns it as a
  success after one request, without a wait or a second attempt; \<^verbatim>\<open>chat\<close> then
  raises on reading \<^verbatim>\<open>tool_calls\<close> of \<^verbatim>\<open>undefined\<close> and returns the message of
  its \<^verbatim>\<open>catch\<close>, still after one request only. And at a response whose message has
  neither content nor tool calls: \<^verbatim>\<open>chat\<close> returns \<^verbatim>\<open>undefined\<close> as the answer
  after one request and stores it in the history.
\<close>

theorem callOpenRouterAPI_accepts_shapeless:
  "callOpenRouterAPI [] 3 shapeless_world
     = (Inr shapeless_data, shapeless_world\<lparr>posts := 1, trace := [Post []]\<rparr>)
   \<and> chat (JStr ''hello'') JNull shapeless_world
     = Some (Inr (JStr errorMessage),
             shapeless_world\<lparr>posts := 1,
               trace := [Post [SystemMsg (JStr defaultSystemPrompt), UserMsg (JStr ''hello'')]]\<rparr>)
   \<and> chat (JStr ''hello'') JNull contentless_world
     = Some (Inr JUndefined,
             contentless_world\<lparr>posts := 1,
               trace := [Post [SystemMsg (JStr defaultSystemPrompt), UserMsg (JStr ''hello'')]],
               conversationHistory := [UserMsg (JStr ''hello''), AssistantMsg JUndefined]\<rparr>)"
proof -
  let ?m = "[SystemMsg (JStr defaultSystemPrompt), UserMsg (JStr ''hello'')]"
  have a: "attempt_outcome (net_post shapeless_world (posts shapeless_world)) = Inr shapeless_data"
    by (simp add: shapeless_world_def)
  have p: "posts shapeless_world = 0" "trace shapeless_world = []"
    "conversationHistory shapeless_world = []"
    by (simp_all add: shapeless_world_def quiet_world_def)
  have c: "callOpenRouterAPI messages 3 shapeless_world
           = (Inr shapeless_data, shapeless_world\<lparr>posts := 1, trace := [Post messages]\<rparr>)"
    for messages
    using callOpenRouterAPI_first [OF a, of messages] by (simp add: p)
  have "chat_try ?m (JStr ''hello'') shapeless_world
        = Some (Inl TypeError, shapeless_world\<lparr>posts := 1, trace := [Post ?m]\<rparr>)"
    by (simp add: chat_try_def c shapeless_data_def)
  then have "chat_iteration ?m (JStr ''hello'') shapeless_world
        = Some (Return (JStr errorMessage), shapeless_world\<lparr>posts := 1, trace := [Post ?m]\<rparr>)"
    by (simp add: chat_iteration_def)
  then have 1: "chat (JStr ''hello'') JNull shapeless_world
     = Some (Inr (JStr errorMessage), shapeless_world\<lparr>posts := 1, trace := [Post ?m]\<rparr>)"
    by (simp add: chat_def initial_messages_def p chat_loop.simps [of 0] maxIterations_def)
  have a': "attempt_outcome (net_post contentless_world (posts contentless_world))
            = Inr contentless_data"
    by (simp add: contentless_world_def)
  have p': "posts contentless_world = 0" "trace contentless_world = []"
    "conversationHistory contentless_world = []"
    by (simp_all add: contentless_world_def quiet_world_def)
  have c': "callOpenRouterAPI ?m 3 contentless_world
           = (Inr contentless_data, contentless_world\<lparr>posts := 1, trace := [Post ?m]\<rparr>)"
    using callOpenRouterAPI_first [OF a', of ?m] by (simp add: p')
  have "chat_try ?m (JStr ''hello'') contentless_world
        = Some (Inr (Return JUndefined),
            contentless_world\<lparr>posts := 1, trace := [Post ?m],
              conversationHistory := [UserMsg (JStr ''hello''), AssistantMsg JUndefined]\<rparr>)"
    by (simp add: chat_try_def c' contentless_data_def p' trim_history_def wants_tools_def)
  then have "chat_iteration ?m (JStr ''hello'') contentless_world
        = Some (Return JUndefined,
            contentless_world\<lparr>posts := 1, trace := [Post ?m],
              conversationHistory := [UserMsg (JStr ''hello''), AssistantMsg JUndefined]\<rparr>)"
    by (simp add: chat_iteration_def)
  then have 2: "chat (JStr ''hello'') JNull contentless_world
     = Some (Inr JUndefined,
            contentless_world\<lparr>posts := 1, trace := [Post ?m],
              conversationHistory := [UserMsg (JStr ''hello''), AssistantMsg JUndefined]\<rparr>)"
    by (simp add: chat_def initial_messages_def p' chat_loop.simps [of 0] maxIterations_def)
  from c [of "[]"] 1 2 show ?thesis by simp
qed

text \<open>A round of the search tool called without a query: the payload is the exception.\<close>

lemma chat_iteration_tool_request:
  assumes "net_post w (posts w) = Response 200 tool_request"
    and "JSON_parse w (JStr ''{}'') = Some (JObj [])"
  shows "chat_iteration messages userMessage w =
           Some (Continue (messages @
                   [AssistantRaw (JObj [(''role'', JStr ''assistant''),
                      (''tool_calls'',
                       JArr [JObj [(''id'', JStr ''call_1''),
                                   (''function'',
                                    JObj [(''name'', JStr ''search_website_urls''),
                                          (''arguments'', JStr ''{}'')])]])]),
                    ToolMsg (JStr ''call_1'') (JStr ''search_website_urls'')
                      (ErrorPayload TypeError)]),
                 w\<lparr>posts := posts w + 1, trace := trace w @ [Post messages]\<rparr>)"
proof -
  have c: "callOpenRouterAPI messages 3 w
           = (Inr tool_request, w\<lparr>posts := posts w + 1, trace := trace w @ [Post messages]\<rparr>)"
    by (rule callOpenRouterAPI_first) (simp add: assms(1))
  have e: "executeToolCall (JStr ''search_website_urls'') (JObj []) w1
           = Some (Inr (ErrorPayload TypeError), w1)" for w1
    by (simp add: executeToolCall_def tool_body_def)
  show ?thesis
    by (simp add: chat_iteration_def chat_try_def c tool_request_def wants_tools_def
          greater_than_zero_def to_number_def assms(2) e)
qed



theorem chat_model_failure_witness:
  "\<not> unprintable (JStr ''What is SSL?'')
   \<and> (1::nat) < 10
   \<and> model_fails_after 1 (initial_messages (JStr ''What is SSL?'') JNull failing_world)
       (JStr ''What is SSL?'') failing_world
   \<and> (\<exists>w'. chat (JStr ''What is SSL?'') JNull failing_world
              = Some (Inr (JStr errorMessage), w')
            \<and> conversationHistory w'
              = [UserMsg (JStr ''hello''), AssistantMsg (JStr ''Hello, how can I help?'')]
            \<and> 4 \<le> posts w' \<and> posts w' \<le> 6)"
proof -
  let ?m = "initial_messages (JStr ''What is SSL?'') JNull failing_world"
  have u: "\<not> unprintable (JStr ''What is SSL?'')" by simp
  have 1: "net_post failing_world (posts failing_world) = Response 200 tool_request"
    and 2: "JSON_parse failing_world (JStr ''{}'') = Some (JObj [])"
    by (simp_all add: failing_world_def tools_world_def quiet_world_def)
  let ?w1 = "failing_world\<lparr>posts := posts failing_world + 1,
                            trace := trace failing_world @ [Post ?m]\<rparr>"
  have fails: "\<forall>k<3. isl (attempt_outcome (net_post ?w1 (posts ?w1 + k)))"
    by (simp add: failing_world_def tools_world_def quiet_world_def attempt_outcome_def)
  have last: "isl (attempt_outcome (net_post failing_world (3 + posts failing_world)))"
    by (simp add: failing_world_def tools_world_def quiet_world_def attempt_outcome_def)
  have "isl (fst (callOpenRouterAPI messages1 3 ?w1))" for messages1
    using loop_all_fail [OF fails, of 0 messages1] last
    by (simp add: callOpenRouterAPI_def)
  then have h: "model_fails_after 1 ?m (JStr ''What is SSL?'') failing_world"
    by (simp add: chat_iteration_tool_request [OF 1 2])
  have n: "(1::nat) < 10" by simp
  from chat_model_failure [OF u n h] obtain w' where
    c: "chat (JStr ''What is SSL?'') JNull failing_world = Some (Inr (JStr errorMessage), w')"
    and k: "conversationHistory w' = conversationHistory failing_world"
    and p: "posts failing_world + 1 + 3 \<le> posts w'" "posts w' \<le> posts failing_world + 3 * 1 + 3"
    by auto
  have p0: "posts failing_world = 0"
    "conversationHistory failing_world
     = [UserMsg (JStr ''hello''), AssistantMsg (JStr ''Hello, how can I help?'')]"
    by (simp_all add: failing_world_def tools_world_def quiet_world_def)
  from k p p0 have
    "conversationHistory w'
     = [UserMsg (JStr ''hello''), AssistantMsg (JStr ''Hello, how can I help?'')]"
    "4 \<le> posts w'" "posts w' \<le> 6"
    by simp_all
  with c have "\<exists>w'. chat (JStr ''What is SSL?'') JNull failing_world
              = Some (Inr (JStr errorMessage), w')
            \<and> conversationHistory w'
              = [UserMsg (JStr ''hello''), AssistantMsg (JStr ''Hello, how can I help?'')]
            \<and> 4 \<le> posts w' \<and> posts w' \<le> 6"
    by blast
  with u n h show ?thesis by blast
qed

text \<open>
  Claim C8. The claim is that \<^verbatim>\<open>executeToolCall\<close> never raises, whatever the name
  of the tool. Its \<^verbatim>\<open>try\<close> block and \<^verbatim>\<open>catch\<close> see to that for everything the
  block does (\<open>executeToolCall_payload\<close>), but line 69 prints the name before the
  \<^verbatim>\<open>try\<close>. For the name that \<^verbatim>\<open>JSON.parse\<close> makes of \<^verbatim>\<open>{"toString": 1}\<close>, which
  is not the name of a tool, the call raises a TypeError instead of returning the payload
  of "Unknown tool". When the model asks for a tool of that name, the exception ends
  the turn in the \<^verbatim>\<open>catch\<close> of \<^verbatim>\<open>chat\<close>, after one request, with the "trouble
  processing" message and no tool message.
\<close>

theorem executeToolCall_raises:
  "executeToolCall (JObj [(''toString'', JNum 1)]) (JObj []) quiet_world
     = Some (Inl TypeError, quiet_world)
   \<and> chat (JStr ''hello'') JNull odd_tools_world
     = Some (Inr (JStr errorMessage),
             odd_tools_world\<lparr>posts := 1,
               trace := [Post [SystemMsg (JStr defaultSystemPrompt), UserMsg (JStr ''hello'')]]\<rparr>)"
proof -
  let ?m = "[SystemMsg (JStr defaultSystemPrompt), UserMsg (JStr ''hello'')]"
  have 1: "executeToolCall (JObj [(''toString'', JNum 1)]) (JObj []) w
           = Some (Inl TypeError, w)" for w
    by (simp add: executeToolCall_def)
  have a: "attempt_outcome (net_post odd_tools_world (posts odd_tools_world))
           = Inr odd_tool_request"
    by (simp add: odd_tools_world_def quiet_world_def attempt_outcome_def check_response_def
        odd_tool_request_def)
  have p: "posts odd_tools_world = 0" "trace odd_tools_world = []"
    "conversationHistory odd_tools_world = []"
    by (simp_all add: odd_tools_world_def quiet_world_def)
  have c: "callOpenRouterAPI ?m 3 odd_tools_world
           = (Inr odd_tool_request, odd_tools_world\<lparr>posts := 1, trace := [Post ?m]\<rparr>)"
    using callOpenRouterAPI_first [OF a, of ?m] by (simp add: p)
  have j: "JSON_parse odd_tools_world (JStr ''{}'') = Some (JObj [])"
    by (simp add: odd_tools_world_def quiet_world_def)
  have "chat_try ?m (JStr ''hello'') odd_tools_world
        = Some (Inl TypeError, odd_tools_world\<lparr>posts := 1, trace := [Post ?m]\<rparr>)"
    by (simp add: chat_try_def c odd_tool_request_def wants_tools_def greater_than_zero_def
        to_number_def j 1)
  then have "chat_iteration ?m (JStr ''hello'') odd_tools_world
        = Some (Return (JStr errorMessage), odd_tools_world\<lparr>posts := 1, trace := [Post ?m]\<rparr>)"
    by (simp add: chat_iteration_def)
  then have 2: "chat (JStr ''hello'') JNull odd_tools_world
     = Some (Inr (JStr errorMessage), odd_tools_world\<lparr>posts := 1, trace := [Post ?m]\<rparr>)"
    by (simp add: chat_def initial_messages_def p chat_loop.simps [of 0] maxIterations_def)
  from 1 [of quiet_world] 2 show ?thesis by simp
qed

section \<open>The cache over the life of the process\<close>

lemma fetchPageContent_quietly:
  assumes "fetchPageContent u w = (res, w')"
  shows "quietly w w'"
proof -
  obtain p w1 where b: "fetch_begin u w = (p, w1)" by (cases "fetch_begin u w")
  with assms have e: "fetch_end u p w1 = (res, w')" by (simp add: fetchPageContent_def)
  note fb = fetch_begin_scrapes [OF b]
  from fetch_end_scrapes(1) [OF e fb(1) fb(4) le_refl le_refl] show ?thesis
    by (rule scrapes_quietly)
qed

lemma fetchPageContent_hit:
  "cache_get w u = Some r \<Longrightarrow> fetchPageContent u w = (Inr r, w)"
  by (simp add: fetchPageContent_def fetch_begin_def fetch_end_def)

lemma fetchPageContent_stores:
  assumes "fetchPageContent (JStr u) w = (Inr r, w1)"
  shows "cache_get w1 (JStr u) = Some r"
proof (cases "cache_get w (JStr u)")
  case (Some r0)
  from fetchPageContent_hit [OF Some] assms Some show ?thesis by simp
next
  case None
  then have b: "fetch_begin (JStr u) w
                = (Requested (gets w), w\<lparr>gets := gets w + 1, trace := trace w @ [Get (JStr u)]\<rparr>)"
    by (simp add: fetch_begin_def)
  show ?thesis
  proof (cases "net_get w (gets w) (JStr u)")
    case (GetRejected msg)
    with assms b show ?thesis by (simp add: fetchPageContent_def fetch_end_def)
  next
    case (GetOk doc now)
    with assms b show ?thesis
      by (auto simp: fetchPageContent_def fetch_end_def Let_def cache_get_def)
  qed
qed

lemma clearCache_empties: "cache_get (clearCache w) u = None"
  by (cases u) (simp_all add: clearCache_def cache_get_def)

lemma resetConversation_advances: "advances w (resetConversation w)"
  by (simp add: resetConversation_def)

lemma run_calls_advances:
  "run_calls calls w = Some w' \<Longrightarrow> advances w w'"
proof (induction calls arbitrary: w)
  case Nil
  then show ?case by simp
next
  case (Cons c calls)
  show ?case
  proof (cases c)
    case (FetchOne u)
    obtain res w1 where f: "fetchPageContent u w = (res, w1)" by (cases "fetchPageContent u w")
    with Cons.prems FetchOne have "run_calls calls w1 = Some w'" by simp
    from Cons.IH [OF this] fetchPageContent_quietly [OF f] show ?thesis
      by (auto simp: quietly_def intro: advances_trans)
  next
    case (FetchMany us maxConcurrent)
    with Cons.prems obtain rs w1 where f: "fetchMultiplePages us maxConcurrent w = Some (rs, w1)"
      and r: "run_calls calls w1 = Some w'"
      by (auto split: option.splits)
    from Cons.IH [OF r] fetchMultiplePages_quietly [OF f] show ?thesis
      by (auto simp: quietly_def intro: advances_trans)
  next
    case (Chat userMessage systemPrompt)
    with Cons.prems obtain answer w1 where f: "chat userMessage systemPrompt w = Some (answer, w1)"
      and r: "run_calls calls w1 = Some w'"
      by (auto split: option.splits)
    have "advances w w1"
    proof (cases "unprintable userMessage")
      case True
      with f show ?thesis by (simp add: chat_def)
    next
      case False
      with f show ?thesis
        by (auto simp: chat_def split: option.splits dest: chat_loop_advances)
    qed
    with Cons.IH [OF r] show ?thesis by (auto intro: advances_trans)
  next
    case ResetConversation
    with Cons.prems have "run_calls calls (resetConversation w) = Some w'" by simp
    from Cons.IH [OF this] resetConversation_advances [of w] show ?thesis
      by (auto intro: advances_trans)
  qed
qed

text \<open>
  The cache of a new \<^verbatim>\<open>WebScraper\<close> is well formed, and the calls of the program keep
  it so.
\<close>

lemma cache_wf_empty: "cache w = Map.empty \<Longrightarrow> cache_wf w"
  by (simp add: cache_wf_def)

lemma cache_wf_clearCache: "cache_wf (clearCache w)"
  by (simp add: cache_wf_def clearCache_def)

lemma cache_wf_run_calls:
  "cache_wf w \<Longrightarrow> run_calls calls w = Some w' \<Longrightarrow> cache_wf w'"
  using cache_wf_advances run_calls_advances by blast

text \<open>
  Claim C6, amended. After a call of \<^verbatim>\<open>fetchPageContent\<close> for a URL has returned a
  page, and after any further calls of the program made one after the other (page
  fetches, batches, chat turns, resets), a call of \<^verbatim>\<open>fetchPageContent\<close> for the same
  URL returns the same page and changes nothing: no request is issued, and the entry is
  still in the cache. The only operation that empties the cache is \<^verbatim>\<open>clearCache\<close>
  (\<open>clearCache_empties\<close>), which nothing in the repository calls.
\<close>

theorem fetchPageContent_cached:
  assumes "fetchPageContent (JStr u) w = (Inr r, w1)" and "run_calls calls w1 = Some w2"
  shows "fetchPageContent (JStr u) w2 = (Inr r, w2) \<and> cache w2 (JStr u) = Some r"
proof -
  from fetchPageContent_stores [OF assms(1)] have "cache_get w1 (JStr u) = Some r" .
  with run_calls_advances [OF assms(2)] have c: "cache_get w2 (JStr u) = Some r"
    by (simp add: advances_def)
  from fetchPageContent_hit [OF c] c show ?thesis by (simp add: cache_get_def)
qed

lemma fetchPageContent_serving:
  "fetchPageContent home_url serving_world
   = (Inr (home_page ''2025-01-01T00:00:00.000Z''),
      serving_world\<lparr>gets := 1, trace := [Get home_url],
        cache := [home_url \<mapsto> home_page ''2025-01-01T00:00:00.000Z'']\<rparr>)"
  by (simp add: fetchPageContent_def fetch_begin_def fetch_end_def cache_get_def
        serving_world_def quiet_world_def home_url_def home_doc_def home_page_def
        build_result_def mainSelectors_def js_trim_def is_whitespace_def Let_def)

text \<open>
  Claim C6, as stated, at a batch that holds the same uncached URL twice: both calls of
  \<^verbatim>\<open>fetchPageContent\<close> read the cache before either response arrives, so two requests
  are issued and the two results differ in their time. Whichever response arrives first,
  the result of the other replaces it in the cache: here the second replaces the first,
  and a later call returns the second, not the first.
\<close>

theorem fetchOne_refresh_counterexample:
  "map_option fst (fetchMultiplePages [home_url, home_url] 3 serving_world)
     = Some [Page (home_page ''2025-01-01T00:00:00.000Z''),
             Page (home_page ''2025-01-01T00:00:00.250Z'')]
   \<and> map_option (gets \<circ> snd) (fetchMultiplePages [home_url, home_url] 3 serving_world)
     = Some 2
   \<and> map_option (fst \<circ> fetchPageContent home_url \<circ> snd)
        (fetchMultiplePages [home_url, home_url] 3 serving_world)
     = Some (Inr (home_page ''2025-01-01T00:00:00.250Z''))
   \<and> home_page ''2025-01-01T00:00:00.000Z'' \<noteq> home_page ''2025-01-01T00:00:00.250Z''"
  by (simp add: fetchMultiplePages_def fetch_loop.simps fetch_batch_def
        fetchPageContent_def fetch_begin_def fetch_end_def cache_get_def
        serving_world_def quiet_world_def home_url_def home_doc_def home_page_def
        build_result_def mainSelectors_def js_trim_def is_whitespace_def Let_def)

lemma run_calls_returns:
  "\<forall>us maxConcurrent. FetchMany us maxConcurrent \<in> set calls \<longrightarrow> 0 < maxConcurrent \<Longrightarrow>
   \<exists>w'. run_calls calls w = Some w'"
proof (induction calls arbitrary: w)
  case Nil
  then show ?case by simp
next
  case (Cons c calls)
  from Cons.prems have rest: "\<exists>w'. run_calls calls w1 = Some w'" for w1
    by (intro Cons.IH) auto
  show ?case
  proof (cases c)
    case (FetchOne u)
    with rest show ?thesis by simp
  next
    case (FetchMany us maxConcurrent)
    with Cons.prems have "0 < maxConcurrent" by auto
    from fetchMultiplePages_returns [OF this, of us w] obtain rs w1 where
      "fetchMultiplePages us maxConcurrent w = Some (rs, w1)" by auto
    with FetchMany rest [of w1] show ?thesis by simp
  next
    case (Chat userMessage systemPrompt)
    obtain answer w1 where "chat userMessage systemPrompt w = Some (answer, w1)"
      using chat_loop_returns
        [of 0 "initial_messages userMessage systemPrompt w" userMessage w]
      by (cases "unprintable userMessage") (auto simp: chat_def)
    with Chat rest [of w1] show ?thesis by simp
  next
    case ResetConversation
    with rest show ?thesis by simp
  qed
qed

theorem fetchPageContent_cached_witness:
  "fst (fetchPageContent home_url serving_world)
     = Inr (home_page ''2025-01-01T00:00:00.000Z'')
   \<and> map_option (fst \<circ> fetchPageContent home_url)
        (run_calls [FetchOne (JStr ''https://www.vsf.technology/ssl/''),
                    FetchMany [home_url, home_url] 3,
                    Chat (JStr ''hello'') JNull,
                    ResetConversation]
           (snd (fetchPageContent home_url serving_world)))
     = Some (Inr (home_page ''2025-01-01T00:00:00.000Z''))"
proof -
  let ?calls = "[FetchOne (JStr ''https://www.vsf.technology/ssl/''),
                 FetchMany [home_url, home_url] 3, Chat (JStr ''hello'') JNull,
                 ResetConversation]"
  let ?w1 = "snd (fetchPageContent home_url serving_world)"
  have f: "fetchPageContent (JStr ''https://www.vsf.technology/'') serving_world
           = (Inr (home_page ''2025-01-01T00:00:00.000Z''), ?w1)"
    using fetchPageContent_serving by (simp add: home_url_def)
  obtain w2 where r: "run_calls ?calls ?w1 = Some w2"
    using run_calls_returns [of ?calls ?w1] by auto
  from fetchPageContent_cached [OF f r] r fetchPageContent_serving show ?thesis
    by (simp add: home_url_def)
qed

end
